theory Spec2Isabelle
  imports Complex_Main
begin

section \<open>Data model of \<open>tabxx::CSV\<close>\<close>

text \<open>
  \<open>CSV::Settings\<close>: the line-ending mode, the separator, the auto-inference flag and
  the precision used to print a \<open>double\<close>. The members of the source end in an
  underscore (\<open>ending_\<close>, \<open>title_\<close>, \<open>values_\<close>, ...), which a name cannot do here:
  the fields carry the same names without it.
\<close>

datatype LINE_ENDING = LF | CRLF | AUTO

record Settings =
  ending :: LINE_ENDING
  separator :: char
  auto_derive_type :: bool
  double_precision :: int

text \<open>The default constructor \<open>Settings()\<close>.\<close>

definition Settings_default :: Settings where
  "Settings_default =
     \<lparr>ending = LF, separator = CHR '','', auto_derive_type = False, double_precision = 1\<rparr>"

text \<open>
  A cell is a \<open>std::any\<close>. The constructors are the types that \<open>anyToString\<close> tells
  apart by \<open>typeid\<close>: \<open>std::string\<close>, \<open>double\<close>, \<open>long long\<close>, \<open>int\<close>, \<open>short\<close>
  and \<open>char\<close> (the last three as the integer value that \<open>std::to_string\<close> receives);
  \<open>AnyOther\<close> stands for a \<open>std::any\<close> holding anything else. The parser only ever
  stores \<open>Text\<close>, \<open>Integer\<close> and \<open>Float\<close>. A \<open>double\<close> is modelled by the rational
  number it denotes; rounding to binary64 is outside the model.
\<close>

datatype any = Text string | Float rat | Integer int
  | AnyInt int | AnyShort int | AnyChar int | AnyOther

record CSV =
  settings :: Settings
  title :: "string list"
  "values" :: "any list list"

text \<open>
  The exceptions of the source. The four \<open>std::runtime_error\<close>s are told apart by
  their message:
  \<^item> \<open>InvalidValueCount\<close>: "tabxx::CSV::addRow(): Invalid value count";
  \<^item> \<open>IndexOutOfRange\<close>: "tabxx::CSV::removeRow(): Index out of range";
  \<^item> \<open>InvalidRange\<close>: "tabxx::CSV::removeRow(): Invalid range";
  \<^item> \<open>EmptyLine\<close>: "tabxx::CSV::parse(std::istream&): Invalid Dataline (Empty Line)";
  \<^item> \<open>InvalidDataline\<close>: "tabxx::CSV::parse(std::istream&): Invalid Dataline".

  \<open>StdOutOfRange\<close> is \<open>std::out_of_range\<close> (from \<open>at\<close>, \<open>std::stoll\<close> and
  \<open>std::stod\<close>), \<open>StdInvalidArgument\<close> is \<open>std::invalid_argument\<close> (from
  \<open>std::stoll\<close> and \<open>std::stod\<close>), \<open>BadAnyCast\<close> is \<open>std::bad_any_cast\<close>.
\<close>

datatype error = InvalidValueCount | IndexOutOfRange | InvalidRange
  | EmptyLine | InvalidDataline
  | StdOutOfRange | StdInvalidArgument | BadAnyCast

datatype 'a outcome = Returned 'a | Thrown error

section \<open>Character tests and number conversion\<close>

definition is_digit :: "char \<Rightarrow> bool" where
  "is_digit ch = (48 \<le> (of_char ch :: nat) \<and> (of_char ch :: nat) \<le> 57)"

definition is_space :: "char \<Rightarrow> bool" where
  "is_space ch = ((9 \<le> (of_char ch :: nat) \<and> (of_char ch :: nat) \<le> 13) \<or> of_char ch = (32::nat))"

definition digit_val :: "char \<Rightarrow> nat" where
  "digit_val ch = of_char ch - 48"

definition digits_val :: "string \<Rightarrow> nat" where
  "digits_val ds = foldl (\<lambda>a ch. 10 * a + digit_val ch) 0 ds"

text \<open>
  The sign that \<open>strtoll\<close> and \<open>strtod\<close> accept in front of the digits: the result
  is whether the number is negative, and the rest of the string.
\<close>

fun take_sign :: "string \<Rightarrow> bool \<times> string" where
  "take_sign [] = (False, [])"
| "take_sign (ch # rest) =
     (if ch = CHR ''-'' then (True, rest)
      else if ch = CHR ''+'' then (False, rest)
      else (False, ch # rest))"

text \<open>
  \<open>std::stoll(str)\<close> in base 10: white space, an optional sign and the longest run of
  digits. No digit at all is \<open>std::invalid_argument\<close>; a value that does not fit a
  \<open>long long\<close> is \<open>std::out_of_range\<close>.
\<close>

definition stoll :: "string \<Rightarrow> int outcome" where
  "stoll str =
     (let (neg, body) = take_sign (dropWhile is_space str);
          ds = takeWhile is_digit body
      in if ds = [] then Thrown StdInvalidArgument
         else (let v = (if neg then - int (digits_val ds) else int (digits_val ds))
               in if v < - (2 ^ 63) \<or> 2 ^ 63 - 1 < v then Thrown StdOutOfRange
                  else Returned v))"

text \<open>
  \<open>std::stod(str)\<close> on a plain decimal literal (white space, an optional sign, digits
  with at most one decimal point), which is all that \<open>detectType\<close> hands to it. A
  literal with no digit is \<open>std::invalid_argument\<close>. The value is the rational the
  literal denotes. Three things that \<open>std::stod\<close> does are outside this model: the
  rounding of a literal that is not a binary fraction (\<open>0.1\<close>) to the nearest
  \<open>double\<close>, the negative zero, and the \<open>std::out_of_range\<close> thrown for a literal
  beyond the range of a \<open>double\<close>. On a literal that a \<open>double\<close> holds exactly,
  such as \<open>12.5\<close>, the model and \<open>std::stod\<close> agree.
\<close>

definition stod :: "string \<Rightarrow> rat outcome" where
  "stod str =
     (let (neg, body) = take_sign (dropWhile is_space str);
          ip = takeWhile is_digit body;
          rest = dropWhile is_digit body;
          fp = (case rest of [] \<Rightarrow> []
                | ch # cs \<Rightarrow> if ch = CHR ''.'' then takeWhile is_digit cs else [])
      in if ip = [] \<and> fp = [] then Thrown StdInvalidArgument
         else (let m = of_nat (digits_val (ip @ fp)) / (10 ^ length fp)
               in Returned (if neg then - m else m)))"

section \<open>Type inference: \<open>detectType\<close>\<close>

text \<open>
  The scanning loop of \<open>detectType\<close>. \<open>first\<close> says that \<open>ch\<close> is at \<open>str.begin()\<close>,
  \<open>isFloat\<close> is the loop's flag. \<open>None\<close> is the early return of the string itself,
  \<open>Some isFloat\<close> is the loop running to the end.
\<close>

fun scan_chars :: "bool \<Rightarrow> bool \<Rightarrow> string \<Rightarrow> bool option" where
  "scan_chars first isFloat [] = Some isFloat"
| "scan_chars first isFloat (ch # rest) =
     (if \<not> is_digit ch then
        (if ch = CHR ''.'' then
           (if \<not> isFloat then scan_chars False True rest else None)
         else if first \<and> (ch = CHR ''+'' \<or> ch = CHR ''-'') then scan_chars False isFloat rest
         else None)
      else scan_chars False isFloat rest)"

text \<open>
  \<open>str.at(0)\<close> throws \<open>std::out_of_range\<close> on the empty string. The two \<open>erase\<close>
  calls drop the last and then the first character (\<open>erase(0, 1)\<close> on a string that
  has become empty erases nothing).
\<close>

definition detectType :: "string \<Rightarrow> any outcome" where
  "detectType str =
     (if str = [] then Thrown StdOutOfRange
      else (let str' = (if hd str = CHR 0x22 \<and> last str = CHR 0x22
                        then drop 1 (butlast str) else str)
            in case scan_chars True False str' of
                 None \<Rightarrow> Returned (Text str')
               | Some isFloat \<Rightarrow>
                   if isFloat then
                     (case stod str' of Thrown e \<Rightarrow> Thrown e | Returned d \<Rightarrow> Returned (Float d))
                   else
                     (case stoll str' of Thrown e \<Rightarrow> Thrown e | Returned n \<Rightarrow> Returned (Integer n))))"

section \<open>Input streams\<close>

text \<open>
  A \<open>std::istream\<close> over a sequence of characters: the characters not read yet and
  the two state bits the operations of \<open>parse\<close> set and test (\<open>badbit\<close>, which none
  of them sets, is left out). \<open>good()\<close> is what the sentry of every unformatted input
  function checks first.
\<close>

record istream =
  buf :: string
  eofbit :: bool
  failbit :: bool

text \<open>\<open>std::istringstream iss(str)\<close> and \<open>std::stringstream ss(line)\<close>.\<close>

definition istringstream :: "string \<Rightarrow> istream" where
  "istringstream str = \<lparr>buf = str, eofbit = False, failbit = False\<rparr>"

definition good :: "istream \<Rightarrow> bool" where
  "good s = (\<not> eofbit s \<and> \<not> failbit s)"

text \<open>
  \<open>src.get()\<close>: \<open>None\<close> is \<open>Traits::eof()\<close>. A stream that is not good only gets its
  \<open>failbit\<close> set; a good stream with nothing left gets \<open>eofbit\<close> and \<open>failbit\<close>.
\<close>

definition get :: "istream \<Rightarrow> char option \<times> istream" where
  "get s =
     (if \<not> good s then (None, s\<lparr>failbit := True\<rparr>)
      else (case buf s of
              [] \<Rightarrow> (None, s\<lparr>eofbit := True, failbit := True\<rparr>)
            | ch # rest \<Rightarrow> (Some ch, s\<lparr>buf := rest\<rparr>)))"

text \<open>
  The assignment \<open>ch = src.get()\<close> narrows the \<open>int\<close> to a \<open>char\<close>: \<open>Traits::eof()\<close>,
  which is \<open>-1\<close>, becomes the byte \<open>0xFF\<close>.
\<close>

fun to_char :: "char option \<Rightarrow> char" where
  "to_char None = CHR 0xFF"
| "to_char (Some ch) = ch"

text \<open>
  \<open>std::getline(s, str, delim)\<close>, returning the new \<open>str\<close> and the new stream. When
  the sentry fails (the stream is not good) \<open>str\<close> is left as it was and \<open>failbit\<close> is
  set. Otherwise \<open>str\<close> is erased and characters are moved to it up to the delimiter,
  which is extracted and dropped; running into the end of the input sets \<open>eofbit\<close>,
  and \<open>failbit\<close> too when nothing at all was extracted.
\<close>

definition getline :: "istream \<Rightarrow> string \<Rightarrow> char \<Rightarrow> string \<times> istream" where
  "getline s str delim =
     (if \<not> good s then (str, s\<lparr>failbit := True\<rparr>)
      else (case dropWhile (\<lambda>ch. ch \<noteq> delim) (buf s) of
              [] \<Rightarrow> (takeWhile (\<lambda>ch. ch \<noteq> delim) (buf s),
                     s\<lparr>buf := [], eofbit := True,
                       failbit := (takeWhile (\<lambda>ch. ch \<noteq> delim) (buf s) = [])\<rparr>)
            | d # rest \<Rightarrow> (takeWhile (\<lambda>ch. ch \<noteq> delim) (buf s), s\<lparr>buf := rest\<rparr>)))"

section \<open>The reader: \<open>parse\<close>\<close>

text \<open>
  The loops of \<open>parse\<close> end when a stream operation sets \<open>eofbit\<close>; on a stream whose
  \<open>failbit\<close> is set while \<open>eofbit\<close> is not they never end. They are therefore partial
  functions: \<open>None\<close> is a loop that does not return.

  The first loop runs when the mode is \<open>AUTO\<close>: it reads characters into \<open>line\<close>
  until a carriage return or a line feed, which fixes the mode, or until \<open>eofbit\<close> is
  set.
\<close>

partial_function (option) scan_header ::
  "istream \<Rightarrow> string \<Rightarrow> LINE_ENDING \<Rightarrow> (istream \<times> string \<times> LINE_ENDING) option" where
  "scan_header src line mode =
     (if eofbit src then Some (src, line, mode)
      else if to_char (fst (get src)) = CHR 0x0D then Some (snd (get src), line, CRLF)
      else if to_char (fst (get src)) = CHR 0x0A then Some (snd (get src), line, LF)
      else scan_header (snd (get src)) (line @ [to_char (fst (get src))]) mode)"

declare scan_header.simps [code]

text \<open>
  The header loop: each \<open>name\<close> starts empty; it is appended to \<open>title_\<close> (here
  \<open>names\<close>) unless the stream is at its end and the name is empty.
\<close>

partial_function (option) header_loop ::
  "char \<Rightarrow> istream \<Rightarrow> string list \<Rightarrow> string list option" where
  "header_loop sep ss names =
     (if \<not> eofbit (snd (getline ss [] sep)) \<or> fst (getline ss [] sep) \<noteq> []
      then header_loop sep (snd (getline ss [] sep)) (names @ [fst (getline ss [] sep)])
      else Some names)"

declare header_loop.simps [code]

text \<open>
  The loop over the fields of one data line: every field is stored (through
  \<open>detectType\<close> when auto-inference is on, as the string otherwise), and the loop ends
  once the line's stream is at its end.
\<close>

partial_function (option) row_loop ::
  "bool \<Rightarrow> char \<Rightarrow> istream \<Rightarrow> any list \<Rightarrow> any list outcome option" where
  "row_loop auto_derive sep s row =
     (case (if auto_derive then detectType (fst (getline s [] sep))
            else Returned (Text (fst (getline s [] sep)))) of
        Thrown e \<Rightarrow> Some (Thrown e)
      | Returned v \<Rightarrow>
          if eofbit (snd (getline s [] sep)) then Some (Returned (row @ [v]))
          else row_loop auto_derive sep (snd (getline s [] sep)) (row @ [v]))"

declare row_loop.simps [code]

text \<open>After a line read up to a carriage return, \<open>src.get()\<close> drops the next character.\<close>

definition skip_lf :: "char \<Rightarrow> istream \<Rightarrow> istream" where
  "skip_lf delim_line src = (if delim_line = CHR 0x0D then snd (get src) else src)"

text \<open>
  \<open>getColumnCount()\<close> and \<open>values_.emplace_back(row)\<close>.
\<close>

definition getColumnCount :: "CSV \<Rightarrow> nat" where
  "getColumnCount c = length (title c)"

definition emplace_back :: "CSV \<Rightarrow> any list \<Rightarrow> CSV" where
  "emplace_back c row = c\<lparr>values := values c @ [row]\<rparr>"

text \<open>
  The loop over the data lines. \<open>line\<close> is the variable of \<open>parse\<close>, which still
  holds the header line when the loop starts. The result is what \<open>parse\<close> returns or
  throws, with the table as it is at that moment.
\<close>

partial_function (option) data_loop ::
  "char \<Rightarrow> istream \<Rightarrow> string \<Rightarrow> CSV \<Rightarrow> (int outcome \<times> CSV) option" where
  "data_loop delim_line src line c =
     (if fst (getline src line delim_line) = [] then
        (if \<not> eofbit (snd (getline src line delim_line)) then Some (Thrown EmptyLine, c)
         else Some (Returned 0, c))
      else
        (case row_loop (auto_derive_type (settings c)) (separator (settings c))
                (istringstream (fst (getline src line delim_line))) [] of
           None \<Rightarrow> None
         | Some (Thrown e) \<Rightarrow> Some (Thrown e, c)
         | Some (Returned row) \<Rightarrow>
             if length row \<noteq> getColumnCount c then Some (Thrown InvalidDataline, c)
             else if eofbit (skip_lf delim_line (snd (getline src line delim_line)))
             then Some (Returned 0, emplace_back c row)
             else data_loop delim_line (skip_lf delim_line (snd (getline src line delim_line)))
                    (fst (getline src line delim_line)) (emplace_back c row)))"

declare data_loop.simps [code]

text \<open>
  \<open>int parse(std::istream& src)\<close>. Its first phase, \<open>detect_header\<close>, leaves the
  header line in \<open>line\<close> and fixes the mode: the first loop runs only when the mode
  is \<open>AUTO\<close>; with an explicit mode nothing is read into \<open>line\<close> before the test
  \<open>line.empty()\<close>. \<open>delim_of\<close> is the character \<open>delim_line\<close>.
\<close>

definition detect_header ::
  "istream \<Rightarrow> LINE_ENDING \<Rightarrow> (istream \<times> string \<times> LINE_ENDING) option" where
  "detect_header src mode =
     (if mode = AUTO then scan_header src [] AUTO else Some (src, [], mode))"

definition delim_of :: "LINE_ENDING \<Rightarrow> char" where
  "delim_of mode = (if mode = LF then CHR 0x0A else CHR 0x0D)"

definition parse :: "istream \<Rightarrow> CSV \<Rightarrow> (int outcome \<times> CSV) option" where
  "parse src c =
     (case detect_header src (ending (settings c)) of
        None \<Rightarrow> None
      | Some (src1, line, mode) \<Rightarrow>
          (let c1 = c\<lparr>settings := (settings c)\<lparr>ending := mode\<rparr>\<rparr>
           in if line = [] then Some (Returned (- 1), c1)
              else (case header_loop (separator (settings c1)) (istringstream line) [] of
                      None \<Rightarrow> None
                    | Some names \<Rightarrow>
                        data_loop (delim_of mode) (skip_lf (delim_of mode) src1) line
                          (c1\<lparr>title := names, values := []\<rparr>))))"

text \<open>
  The constructors \<open>CSV(settings)\<close>, \<open>CSV(src, s)\<close> and \<open>CSV(str, s)\<close>, the last being
  also the static \<open>CSV::parse(str, settings)\<close>. They drop the \<open>int\<close> that \<open>parse\<close>
  returns; an exception leaves no object.
\<close>

definition CSV_new :: "Settings \<Rightarrow> CSV" where
  "CSV_new s = \<lparr>settings = s, title = [], values = []\<rparr>"

definition CSV_of_stream :: "istream \<Rightarrow> Settings \<Rightarrow> CSV outcome option" where
  "CSV_of_stream src s =
     (case parse src (CSV_new s) of
        None \<Rightarrow> None
      | Some (Thrown e, c) \<Rightarrow> Some (Thrown e)
      | Some (Returned rc, c) \<Rightarrow> Some (Returned c))"

definition CSV_of_string :: "string \<Rightarrow> Settings \<Rightarrow> CSV outcome option" where
  "CSV_of_string str s = CSV_of_stream (istringstream str) s"

section \<open>Table operations\<close>

text \<open>
  The mutating members return what they throw or return together with the object as
  it is afterwards. Both overloads of \<open>addRow\<close> and of \<open>setTitle\<close> do the same.
\<close>

text \<open>\<open>empty()\<close>, \<open>clear()\<close>, \<open>setTitle\<close>, \<open>addRow\<close> and \<open>removeRow(index)\<close>.\<close>

definition empty_CSV :: "CSV \<Rightarrow> bool" where
  "empty_CSV c = (title c = [])"

definition clear :: "CSV \<Rightarrow> CSV" where
  "clear c = c\<lparr>title := [], values := []\<rparr>"

definition setTitle :: "string list \<Rightarrow> CSV \<Rightarrow> CSV" where
  "setTitle t c = (clear c)\<lparr>title := t\<rparr>"

definition addRow :: "any list \<Rightarrow> CSV \<Rightarrow> unit outcome \<times> CSV" where
  "addRow l c =
     (if length l \<noteq> length (title c) then (Thrown InvalidValueCount, c)
      else (Returned (), c\<lparr>values := values c @ [l]\<rparr>))"

definition removeRow :: "nat \<Rightarrow> CSV \<Rightarrow> unit outcome \<times> CSV" where
  "removeRow index c =
     (if index \<ge> length (values c) then (Thrown IndexOutOfRange, c)
      else (Returned (), c\<lparr>values := take index (values c) @ drop (Suc index) (values c)\<rparr>))"

text \<open>\<open>removeRow(begin, end)\<close> erases the rows from \<open>begin\<close> up to, not including, \<open>end\<close>.\<close>

definition removeRow_range :: "nat \<Rightarrow> nat \<Rightarrow> CSV \<Rightarrow> unit outcome \<times> CSV" where
  "removeRow_range b e c =
     (if b \<ge> length (values c) \<or> e \<ge> length (values c) \<or> b > e
      then (Thrown InvalidRange, c)
      else (Returned (), c\<lparr>values := take b (values c) @ drop e (values c)\<rparr>))"

section \<open>The writer: \<open>anyToString\<close> and \<open>write\<close>\<close>

text \<open>\<open>std::to_string\<close> of an integer: decimal digits, a minus sign when negative.\<close>

fun nat_digits :: "nat \<Rightarrow> string" where
  "nat_digits n =
     (if n < 10 then [char_of (48 + n)]
      else nat_digits (n div 10) @ [char_of (48 + n mod 10)])"

definition to_string :: "int \<Rightarrow> string" where
  "to_string v = (if v < 0 then CHR ''-'' # nat_digits (nat (- v)) else nat_digits (nat v))"

text \<open>
  \<open>ss << std::fixed << std::setprecision(p) << d\<close> for the rational \<open>d\<close>: \<open>p\<close>
  digits after the point (six when \<open>p\<close> is negative, no point when it is zero), the
  last one rounded to nearest, ties to even.
\<close>

definition round_half_even :: "rat \<Rightarrow> nat" where
  "round_half_even x =
     (let f = nat \<lfloor>x\<rfloor>; r = x - of_int \<lfloor>x\<rfloor>
      in if r < 1 / 2 then f else if 1 / 2 < r then Suc f
         else if even f then f else Suc f)"

definition fixed :: "int \<Rightarrow> rat \<Rightarrow> string" where
  "fixed p d =
     (let prec = (if p < 0 then 6 else nat p);
          scaled = round_half_even (\<bar>d\<bar> * 10 ^ prec);
          frac = nat_digits (scaled mod 10 ^ prec)
      in (if d < 0 then [CHR ''-''] else []) @ nat_digits (scaled div 10 ^ prec) @
         (if prec = 0 then []
          else CHR ''.'' # replicate (prec - length frac) CHR ''0'' @ frac))"

text \<open>
  \<open>anyToString\<close> has no \<open>return\<close> for a value of any other type: \<open>None\<close> is that
  undefined behaviour.
\<close>

fun anyToString :: "Settings \<Rightarrow> any \<Rightarrow> string option" where
  "anyToString st (Text str) = Some str"
| "anyToString st (Float d) = Some (fixed (double_precision st) d)"
| "anyToString st (Integer n) = Some (to_string n)"
| "anyToString st (AnyInt n) = Some (to_string n)"
| "anyToString st (AnyShort n) = Some (to_string n)"
| "anyToString st (AnyChar n) = Some (to_string n)"
| "anyToString st AnyOther = None"

text \<open>
  The two ways \<open>write\<close> turns a cell into a string: \<open>std::any_cast<std::string>\<close>
  when auto-inference is off, which throws on a cell that holds no string, and
  \<open>anyToString\<close> when it is on.
\<close>

fun any_cast_string :: "any \<Rightarrow> string outcome option" where
  "any_cast_string (Text str) = Some (Returned str)"
| "any_cast_string v = Some (Thrown BadAnyCast)"

definition render_any :: "Settings \<Rightarrow> any \<Rightarrow> string outcome option" where
  "render_any st v = (case anyToString st v of None \<Rightarrow> None | Some str \<Rightarrow> Some (Returned str))"

text \<open>
  The output stream \<open>des\<close> is the string written so far, paired with the counter
  \<open>ret\<close>: \<open>put\<close> is \<open>des << str; ret += str.size()\<close>.
\<close>

type_synonym writer = "string \<times> nat"

fun put :: "string \<Rightarrow> writer \<Rightarrow> writer" where
  "put str (des, ret) = (des @ str, ret + length str)"

definition put_ending :: "LINE_ENDING \<Rightarrow> writer \<Rightarrow> writer" where
  "put_ending mode w = (if mode = LF then put [CHR 0x0A] w else put [CHR 0x0D, CHR 0x0A] w)"

text \<open>The loop over the titles: a separator follows every title but the last.\<close>

fun write_titles :: "char \<Rightarrow> string list \<Rightarrow> writer \<Rightarrow> writer" where
  "write_titles sep [] w = w"
| "write_titles sep (t # ts) w =
     write_titles sep ts (if ts \<noteq> [] then put [sep] (put t w) else put t w)"

text \<open>
  The loop over the cells of one row, and the loop over the rows. The two copies of
  these loops in \<open>write\<close> differ only in how a cell becomes a string, which is the
  parameter \<open>conv\<close>.
\<close>

fun write_cells ::
  "(any \<Rightarrow> string outcome option) \<Rightarrow> char \<Rightarrow> any list \<Rightarrow> writer \<Rightarrow> (unit outcome \<times> writer) option" where
  "write_cells conv sep [] w = Some (Returned (), w)"
| "write_cells conv sep (v # vs) w =
     (case conv v of
        None \<Rightarrow> None
      | Some (Thrown e) \<Rightarrow> Some (Thrown e, w)
      | Some (Returned str) \<Rightarrow>
          write_cells conv sep vs (if vs \<noteq> [] then put [sep] (put str w) else put str w))"

fun write_rows ::
  "(any \<Rightarrow> string outcome option) \<Rightarrow> char \<Rightarrow> LINE_ENDING \<Rightarrow> any list list \<Rightarrow> writer
     \<Rightarrow> (unit outcome \<times> writer) option" where
  "write_rows conv sep mode [] w = Some (Returned (), w)"
| "write_rows conv sep mode (line # rest) w =
     (case write_cells conv sep line w of
        None \<Rightarrow> None
      | Some (Thrown e, w') \<Rightarrow> Some (Thrown e, w')
      | Some (Returned u, w') \<Rightarrow> write_rows conv sep mode rest (put_ending mode w'))"

text \<open>
  \<open>std::size_t write(std::ostream& des)\<close>, named \<open>write_CSV\<close> here: the result is
  the count returned, or the exception thrown, together with the stream.
\<close>

definition write_CSV :: "CSV \<Rightarrow> string \<Rightarrow> (nat outcome \<times> string) option" where
  "write_CSV c des =
     (if \<not> empty_CSV c then
        (case write_rows
                (if \<not> auto_derive_type (settings c) then any_cast_string
                 else render_any (settings c))
                (separator (settings c)) (ending (settings c)) (values c)
                (put_ending (ending (settings c))
                   (write_titles (separator (settings c)) (title c) (des, 0))) of
           None \<Rightarrow> None
         | Some (Thrown e, (des', ret)) \<Rightarrow> Some (Thrown e, des')
         | Some (Returned u, (des', ret)) \<Rightarrow> Some (Returned ret, des'))
      else Some (Returned 0, des))"

section \<open>Notions used in the statements\<close>

text \<open>
  The fields of a line: the pieces between the separators, so that a line with \<open>n\<close>
  separators has \<open>n + 1\<close> fields, the last of them empty when the line ends in a
  separator. \<open>join\<close> puts a separator between the fields, which is how \<open>write\<close>
  lays out the header and the rows.
\<close>

fun fields :: "char \<Rightarrow> string \<Rightarrow> string list" where
  "fields sep [] = [[]]"
| "fields sep (ch # rest) =
     (if ch = sep then [] # fields sep rest
      else (ch # hd (fields sep rest)) # tl (fields sep rest))"

fun join :: "char \<Rightarrow> string list \<Rightarrow> string" where
  "join sep [] = []"
| "join sep [f] = f"
| "join sep (f # g # fs) = f @ sep # join sep (g # fs)"

text \<open>
  What the header loop makes of a line: its fields, without the last one when that
  is empty.
\<close>

definition header_fields :: "char \<Rightarrow> string \<Rightarrow> string list" where
  "header_fields sep line =
     (if last (fields sep line) = [] then butlast (fields sep line) else fields sep line)"

text \<open>
  What the row loop stores for a field, and the conversion of the fields of a line in
  order: the first exception ends it.
\<close>

definition convert :: "bool \<Rightarrow> string \<Rightarrow> any outcome" where
  "convert auto_derive val = (if auto_derive then detectType val else Returned (Text val))"

fun convert_all :: "bool \<Rightarrow> string list \<Rightarrow> any list \<Rightarrow> any list outcome" where
  "convert_all auto_derive [] row = Returned row"
| "convert_all auto_derive (val # vals) row =
     (case convert auto_derive val of
        Thrown e \<Rightarrow> Thrown e
      | Returned v \<Rightarrow> convert_all auto_derive vals (row @ [v]))"

text \<open>
  The invariant of a table: every row has as many cells as there are titles.
  \<open>extends c c'\<close> says that \<open>c'\<close> is \<open>c\<close> with more rows, each as long as the header.
\<close>

definition row_inv :: "CSV \<Rightarrow> bool" where
  "row_inv c = (\<forall>row\<in>set (values c). length row = length (title c))"

definition extends :: "CSV \<Rightarrow> CSV \<Rightarrow> bool" where
  "extends c c' =
     (settings c' = settings c \<and> title c' = title c \<and>
      (\<exists>rows. values c' = values c @ rows \<and> (\<forall>row\<in>set rows. length row = length (title c))))"

text \<open>
  The text of a table as the specification describes it: the titles joined by the
  separator, then every row joined by the separator, each of these lines followed by
  the terminator.
\<close>

definition written :: "char \<Rightarrow> string \<Rightarrow> string list \<Rightarrow> string list list \<Rightarrow> string" where
  "written sep term ts rows = join sep ts @ term @ concat (map (\<lambda>row. join sep row @ term) rows)"

text \<open>The string held by a \<open>Text\<close> cell.\<close>

fun cell_text :: "any \<Rightarrow> string" where
  "cell_text (Text str) = str"
| "cell_text v = []"

section \<open>Auxiliary lemmas\<close>

lemma fields_not_Nil [simp]: "fields sep l \<noteq> []"
  by (induction l) auto

lemma fields_no_sep: "sep \<notin> set f \<Longrightarrow> fields sep f = [f]"
  by (induction f) auto

lemma fields_append_sep: "sep \<notin> set f \<Longrightarrow> fields sep (f @ sep # rest) = f # fields sep rest"
  by (induction f) auto

lemma fields_join:
  "fs \<noteq> [] \<Longrightarrow> \<forall>f\<in>set fs. sep \<notin> set f \<Longrightarrow> fields sep (join sep fs) = fs"
  by (induction sep fs rule: join.induct) (auto simp: fields_no_sep fields_append_sep)

lemma header_fields_no_sep:
  "sep \<notin> set f \<Longrightarrow> header_fields sep f = (if f = [] then [] else [f])"
  by (simp add: header_fields_def fields_no_sep)

lemma header_fields_append_sep:
  "sep \<notin> set f \<Longrightarrow> header_fields sep (f @ sep # rest) = f # header_fields sep rest"
  by (simp add: header_fields_def fields_append_sep)

lemma getline_end:
  "good s \<Longrightarrow> d \<notin> set (buf s) \<Longrightarrow>
   getline s str d = (buf s, s\<lparr>buf := [], eofbit := True, failbit := (buf s = [])\<rparr>)"
proof -
  assume g: "good s" and d: "d \<notin> set (buf s)"
  have tw: "takeWhile (\<lambda>ch. ch \<noteq> d) (buf s) = buf s"
    and dw: "dropWhile (\<lambda>ch. ch \<noteq> d) (buf s) = []"
    using d by auto
  show ?thesis unfolding getline_def tw dw using g by simp
qed

lemma getline_delim:
  "good s \<Longrightarrow> buf s = pre @ d # rest \<Longrightarrow> d \<notin> set pre \<Longrightarrow>
   getline s str d = (pre, s\<lparr>buf := rest\<rparr>)"
proof -
  assume g: "good s" and b: "buf s = pre @ d # rest" and d: "d \<notin> set pre"
  have tw: "takeWhile (\<lambda>ch. ch \<noteq> d) (buf s) = pre"
    and dw: "dropWhile (\<lambda>ch. ch \<noteq> d) (buf s) = d # rest"
    unfolding b using d by (induction pre) auto
  show ?thesis unfolding getline_def tw dw using g by simp
qed

lemma getline_not_good:
  "\<not> good s \<Longrightarrow> getline s str d = (str, s\<lparr>failbit := True\<rparr>)"
  by (simp add: getline_def)

lemma row_loop_fields:
  "good s \<Longrightarrow> row_loop a sep s row = Some (convert_all a (fields sep (buf s)) row)"
proof (induction "length (buf s)" arbitrary: s row a rule: less_induct)
  case less
  show ?case
  proof (cases "sep \<in> set (buf s)")
    case False
    show ?thesis
      by (subst row_loop.simps)
        (simp add: getline_end [OF less.prems False] fields_no_sep [OF False] convert_def
           split: outcome.split)
  next
    case True
    then obtain pre rest where b: "buf s = pre @ sep # rest" and p: "sep \<notin> set pre"
      by (auto dest: split_list_first)
    have g: "good (s\<lparr>buf := rest\<rparr>)"
      using less.prems by (simp add: good_def)
    have ih: "row_loop x sep (s\<lparr>buf := rest\<rparr>) r = Some (convert_all x (fields sep rest) r)" for r x
      using less.hyps [of "s\<lparr>buf := rest\<rparr>" x r] b g by simp
    have ne: "\<not> eofbit s"
      using less.prems by (simp add: good_def)
    show ?thesis
      by (subst row_loop.simps)
        (simp add: getline_delim [OF less.prems b p] b fields_append_sep [OF p] ih ne convert_def
           split: outcome.split)
  qed
qed

lemma header_loop_eof: "eofbit s \<Longrightarrow> header_loop sep s names = Some names"
  by (subst header_loop.simps) (simp add: getline_not_good good_def)

lemma header_loop_fields:
  "good s \<Longrightarrow> header_loop sep s names = Some (names @ header_fields sep (buf s))"
proof (induction "length (buf s)" arbitrary: s names rule: less_induct)
  case less
  show ?case
  proof (cases "sep \<in> set (buf s)")
    case False
    show ?thesis
      by (subst header_loop.simps)
        (simp add: getline_end [OF less.prems False] header_fields_no_sep [OF False]
           header_loop_eof)
  next
    case True
    then obtain pre rest where b: "buf s = pre @ sep # rest" and p: "sep \<notin> set pre"
      by (auto dest: split_list_first)
    have g: "good (s\<lparr>buf := rest\<rparr>)"
      using less.prems by (simp add: good_def)
    have ih: "header_loop sep (s\<lparr>buf := rest\<rparr>) ns = Some (ns @ header_fields sep rest)" for ns
      using less.hyps [of "s\<lparr>buf := rest\<rparr>" ns] b g by simp
    have ne: "\<not> eofbit s"
      using less.prems by (simp add: good_def)
    show ?thesis
      by (subst header_loop.simps)
        (simp add: getline_delim [OF less.prems b p] b header_fields_append_sep [OF p] ih ne)
  qed
qed

lemma get_good_Cons: "good s \<Longrightarrow> buf s = ch # rest \<Longrightarrow> get s = (Some ch, s\<lparr>buf := rest\<rparr>)"
  by (simp add: get_def)

lemma get_good_Nil:
  "good s \<Longrightarrow> buf s = [] \<Longrightarrow> get s = (None, s\<lparr>eofbit := True, failbit := True\<rparr>)"
  by (simp add: get_def)

lemma get_not_good: "\<not> good s \<Longrightarrow> get s = (None, s\<lparr>failbit := True\<rparr>)"
  by (simp add: get_def)

lemma scan_header_eof: "eofbit src \<Longrightarrow> scan_header src line mode = Some (src, line, mode)"
  by (subst scan_header.simps) simp

lemma scan_header_found:
  "good src \<Longrightarrow> buf src = pre @ t # rest \<Longrightarrow> t = CHR 0x0D \<or> t = CHR 0x0A \<Longrightarrow>
   CHR 0x0D \<notin> set pre \<Longrightarrow> CHR 0x0A \<notin> set pre \<Longrightarrow>
   scan_header src line mode =
     Some (src\<lparr>buf := rest\<rparr>, line @ pre, if t = CHR 0x0D then CRLF else LF)"
proof (induction pre arbitrary: src line)
  case Nil
  have ne: "\<not> eofbit src" using Nil.prems(1) by (simp add: good_def)
  have g: "get src = (Some t, src\<lparr>buf := rest\<rparr>)"
    using Nil.prems by (simp add: get_good_Cons)
  show ?case using Nil.prems(3)
    by (subst scan_header.simps) (auto simp: g ne)
next
  case (Cons p ps)
  have ne: "\<not> eofbit src" using Cons.prems(1) by (simp add: good_def)
  have g: "get src = (Some p, src\<lparr>buf := ps @ t # rest\<rparr>)"
    using Cons.prems by (simp add: get_good_Cons)
  have p: "p \<noteq> CHR 0x0D" "p \<noteq> CHR 0x0A" using Cons.prems by auto
  have ih: "scan_header (src\<lparr>buf := ps @ t # rest\<rparr>) (line @ [p]) mode =
      Some (src\<lparr>buf := rest\<rparr>, (line @ [p]) @ ps, if t = CHR 0x0D then CRLF else LF)"
    using Cons.IH [of "src\<lparr>buf := ps @ t # rest\<rparr>" "line @ [p]"] Cons.prems
    by (simp add: good_def)
  show ?case
    by (subst scan_header.simps) (simp add: g ne p ih)
qed

lemma scan_header_no_terminator:
  "good src \<Longrightarrow> CHR 0x0D \<notin> set (buf src) \<Longrightarrow> CHR 0x0A \<notin> set (buf src) \<Longrightarrow>
   scan_header src line mode =
     Some (src\<lparr>buf := [], eofbit := True, failbit := True\<rparr>, line @ buf src @ [CHR 0xFF], mode)"
proof (induction "buf src" arbitrary: src line)
  case Nil
  have ne: "\<not> eofbit src" using Nil.prems(1) by (simp add: good_def)
  have g: "get src = (None, src\<lparr>eofbit := True, failbit := True\<rparr>)"
    using Nil by (simp add: get_good_Nil)
  have b: "src\<lparr>buf := [], eofbit := True, failbit := True\<rparr> = src\<lparr>eofbit := True, failbit := True\<rparr>"
    using Nil.hyps by simp
  show ?case
    by (subst scan_header.simps) (simp add: g ne scan_header_eof b Nil.hyps [symmetric])
next
  case (Cons p ps)
  have ne: "\<not> eofbit src" using Cons.prems(1) by (simp add: good_def)
  have g: "get src = (Some p, src\<lparr>buf := ps\<rparr>)"
    using Cons.prems Cons.hyps(2) by (simp add: get_good_Cons)
  have p: "p \<noteq> CHR 0x0D" "p \<noteq> CHR 0x0A"
    using Cons.prems Cons.hyps(2) [symmetric] by auto
  have ih: "scan_header (src\<lparr>buf := ps\<rparr>) (line @ [p]) mode =
      Some (src\<lparr>buf := [], eofbit := True, failbit := True\<rparr>, (line @ [p]) @ ps @ [CHR 0xFF], mode)"
    using Cons.hyps(1) [of "src\<lparr>buf := ps\<rparr>" "line @ [p]"] Cons.prems Cons.hyps(2) [symmetric]
    by (simp add: good_def)
  show ?case
    by (subst scan_header.simps) (simp add: g ne p ih Cons.hyps(2) [symmetric])
qed

lemma extends_refl: "extends c c"
  by (simp add: extends_def)

lemma extends_emplace_back:
  "length row = getColumnCount c \<Longrightarrow> extends (emplace_back c row) c' \<Longrightarrow> extends c c'"
  by (auto simp: extends_def emplace_back_def getColumnCount_def)

lemma extends_emplace_back_self:
  "length row = getColumnCount c \<Longrightarrow> extends c (emplace_back c row)"
  by (auto simp: extends_def emplace_back_def getColumnCount_def)

lemma data_loop_extends:
  assumes "data_loop d src line c = Some y"
  shows "extends c (snd y)"
proof (rule data_loop.raw_induct [where P = "\<lambda>d src line c y. extends c (snd y)", OF _ assms],
    goal_cases)
  case (1 f d src line c y)
  have ih: "f d' s' l' c' = Some y \<Longrightarrow> extends c' (snd y)" for d' s' l' c'
    using "1"(1) by blast
  show ?case
    using "1"(2)
    by (auto split: if_splits option.splits outcome.splits dest!: ih
        intro: extends_refl extends_emplace_back extends_emplace_back_self)
qed

lemma extends_row_inv: "row_inv c \<Longrightarrow> extends c c' \<Longrightarrow> row_inv c'"
  by (auto simp: row_inv_def extends_def)

lemma data_loop_step:
  assumes "getline src line d = (line', src1)"
  shows "data_loop d src line c =
     (if line' = [] then
        (if \<not> eofbit src1 then Some (Thrown EmptyLine, c) else Some (Returned 0, c))
      else
        (case convert_all (auto_derive_type (settings c)) (fields (separator (settings c)) line') [] of
           Thrown e \<Rightarrow> Some (Thrown e, c)
         | Returned row \<Rightarrow>
             if length row \<noteq> length (title c) then Some (Thrown InvalidDataline, c)
             else if eofbit (skip_lf d src1) then Some (Returned 0, emplace_back c row)
             else data_loop d (skip_lf d src1) line' (emplace_back c row)))"
proof -
  have r: "row_loop a sep (istringstream line') [] = Some (convert_all a (fields sep line') [])"
    for a sep
    using row_loop_fields [of "istringstream line'" a sep "[]"]
    by (simp add: istringstream_def good_def)
  show ?thesis
    by (subst data_loop.simps) (simp add: assms r getColumnCount_def split: outcome.split)
qed

lemma skip_lf_eof: "eofbit s \<Longrightarrow> eofbit (skip_lf d s)"
  by (simp add: skip_lf_def get_def good_def)

lemma skip_lf_good:
  "good s \<Longrightarrow> eofbit (skip_lf d s) \<or> (good (skip_lf d s) \<and> length (buf (skip_lf d s)) \<le> length (buf s))"
  by (cases "buf s") (simp_all add: skip_lf_def get_def good_def)

lemma data_loop_step_cases:
  assumes "getline src line d = (line', src1)"
  shows "(\<exists>y. data_loop d src line c = Some y) \<or>
     (\<not> eofbit (skip_lf d src1) \<and>
      (\<exists>row. data_loop d src line c = data_loop d (skip_lf d src1) line' (emplace_back c row)))"
  by (subst (1 2) data_loop_step [OF assms]) (auto split: outcome.split)

lemma data_loop_eof:
  assumes "eofbit src"
  shows "\<exists>y. data_loop d src line c = Some y"
proof -
  have g: "getline src line d = (line, src\<lparr>failbit := True\<rparr>)"
    using assms by (simp add: getline_not_good good_def)
  have e: "eofbit (skip_lf d (src\<lparr>failbit := True\<rparr>))"
    using assms by (simp add: skip_lf_eof)
  show ?thesis
    using data_loop_step_cases [OF g, where c = c] e by blast
qed

lemma data_loop_returns:
  "eofbit src \<or> good src \<Longrightarrow> \<exists>y. data_loop d src line c = Some y"
proof (induction "length (buf src)" arbitrary: src line c rule: less_induct)
  case less
  show ?case
  proof (cases "eofbit src")
    case True
    then show ?thesis by (rule data_loop_eof)
  next
    case False
    then have g: "good src" using less.prems by simp
    show ?thesis
    proof (cases "d \<in> set (buf src)")
      case False
      have e: "eofbit (skip_lf d (src\<lparr>buf := [], eofbit := True, failbit := (buf src = [])\<rparr>))"
        by (simp add: skip_lf_eof)
      show ?thesis
        using data_loop_step_cases [OF getline_end [OF g False], where c = c] e by blast
    next
      case True
      then obtain pre rest where b: "buf src = pre @ d # rest" and p: "d \<notin> set pre"
        by (auto dest: split_list_first)
      let ?s1 = "src\<lparr>buf := rest\<rparr>"
      have g1: "good ?s1" using g by (simp add: good_def)
      have ih: "\<exists>y. data_loop d (skip_lf d ?s1) l c' = Some y" for l c'
      proof (cases "eofbit (skip_lf d ?s1)")
        case True
        then show ?thesis by (rule data_loop_eof)
      next
        case False
        then have "good (skip_lf d ?s1)" "length (buf (skip_lf d ?s1)) \<le> length (buf ?s1)"
          using skip_lf_good [OF g1, of d] by auto
        then show ?thesis
          using less.hyps [of "skip_lf d ?s1" l c'] b by simp
      qed
      show ?thesis
        using data_loop_step_cases [OF getline_delim [OF g b p], where c = c] ih by metis
    qed
  qed
qed

lemma scan_header_returns:
  assumes "eofbit src \<or> good src"
  shows "\<exists>src1 l m. scan_header src line mode = Some (src1, l, m) \<and> (eofbit src1 \<or> good src1)"
proof (cases "eofbit src")
  case True
  then show ?thesis by (simp add: scan_header_eof)
next
  case False
  then have g: "good src" using assms by simp
  define P where "P = (\<lambda>x. x = CHR 0x0D \<or> x = CHR 0x0A)"
  show ?thesis
  proof (cases "\<exists>x\<in>set (buf src). P x")
    case False
    then have "CHR 0x0D \<notin> set (buf src)" "CHR 0x0A \<notin> set (buf src)"
      by (auto simp: P_def)
    from scan_header_no_terminator [OF g this, of line mode] show ?thesis by simp
  next
    case True
    from split_list_first_prop [OF True]
    obtain pre t rest where b: "buf src = pre @ t # rest" and t: "P t"
      and p: "\<forall>x\<in>set pre. \<not> P x"
      by blast
    have t': "t = CHR 0x0D \<or> t = CHR 0x0A" using t by (simp add: P_def)
    have p': "CHR 0x0D \<notin> set pre" "CHR 0x0A \<notin> set pre" using p by (auto simp: P_def)
    have g': "eofbit (src\<lparr>buf := rest\<rparr>) \<or> good (src\<lparr>buf := rest\<rparr>)"
      using g by (simp add: good_def)
    from scan_header_found [OF g b t' p', of line mode] g' show ?thesis by blast
  qed
qed

lemma header_loop_istringstream:
  "header_loop sep (istringstream l) [] = Some (header_fields sep l)"
  using header_loop_fields [of "istringstream l" sep "[]"]
  by (simp add: istringstream_def good_def)

lemma skip_lf_sane: "eofbit s \<or> good s \<Longrightarrow> eofbit (skip_lf d s) \<or> good (skip_lf d s)"
  using skip_lf_eof skip_lf_good by blast

lemma parse_returns:
  assumes "eofbit src \<or> good src"
  shows "\<exists>y. parse src c = Some y"
proof (cases "ending (settings c) = AUTO")
  case False
  then show ?thesis by (simp add: parse_def detect_header_def)
next
  case True
  obtain src1 l m where s: "scan_header src [] AUTO = Some (src1, l, m)"
    and s1: "eofbit src1 \<or> good src1"
    using scan_header_returns [OF assms] by blast
  obtain y where "data_loop (delim_of m) (skip_lf (delim_of m) src1) l
      (c\<lparr>settings := (settings c)\<lparr>ending := m\<rparr>, title := header_fields (separator (settings c)) l, values := []\<rparr>) = Some y"
    using data_loop_returns [OF skip_lf_sane [OF s1]] by blast
  then show ?thesis
    by (simp add: parse_def detect_header_def True s header_loop_istringstream Let_def)
qed

lemma fields_snoc_sep: "fields sep (l @ [sep]) = fields sep l @ [[]]"
  by (induction l) auto

lemma header_fields_snoc_sep: "header_fields sep (l @ [sep]) = fields sep l"
  by (simp add: header_fields_def fields_snoc_sep)

lemma convert_all_False: "convert_all False fs row = Returned (row @ map Text fs)"
  by (induction fs arbitrary: row) (simp_all add: convert_def)

lemma row_loop_istringstream:
  "row_loop a sep (istringstream l) [] = Some (convert_all a (fields sep l) [])"
  using row_loop_fields [of "istringstream l" a sep "[]"]
  by (simp add: istringstream_def good_def)

lemma parse_row_inv:
  assumes "row_inv c" and "parse src c = Some (r, c')"
  shows "row_inv c'"
proof -
  obtain src1 line m where
    s: "detect_header src (ending (settings c)) = Some (src1, line, m)"
    using assms(2) by (auto simp: parse_def split: option.splits)
  let ?c1 = "c\<lparr>settings := (settings c)\<lparr>ending := m\<rparr>\<rparr>"
  show ?thesis
  proof (cases "line = []")
    case True
    then have "c' = ?c1" using assms(2) s by (simp add: parse_def)
    then show ?thesis using assms(1) by (simp add: row_inv_def)
  next
    case False
    obtain names where h: "header_loop (separator (settings ?c1)) (istringstream line) [] = Some names"
      by (simp add: header_loop_istringstream)
    have d: "data_loop (delim_of m) (skip_lf (delim_of m) src1) line
        (?c1\<lparr>title := names, values := []\<rparr>) = Some (r, c')"
      using assms(2) s False h by (simp add: parse_def)
    have "row_inv (?c1\<lparr>title := names, values := []\<rparr>)" by (simp add: row_inv_def)
    then show ?thesis using data_loop_extends [OF d] extends_row_inv by fastforce
  qed
qed

lemma row_inv_take_drop:
  "row_inv c \<Longrightarrow> row_inv (c\<lparr>values := take a (values c) @ drop b (values c)\<rparr>)"
  by (auto simp: row_inv_def dest: in_set_takeD in_set_dropD)

lemma data_loop_settings:
  "data_loop d src line c = Some (r, c') \<Longrightarrow> settings c' = settings c \<and> title c' = title c"
  using data_loop_extends [of d src line c "(r, c')"] by (simp add: extends_def)

lemma skip_lf_CR: "good s \<Longrightarrow> buf s = ch # rest \<Longrightarrow> skip_lf CHR 0x0D s = s\<lparr>buf := rest\<rparr>"
  by (simp add: skip_lf_def get_good_Cons)

lemma skip_lf_LF: "skip_lf CHR 0x0A s = s"
  by (simp add: skip_lf_def)

lemma join_Cons: "fs \<noteq> [] \<Longrightarrow> join sep (f # fs) = f @ sep # join sep fs"
  by (cases fs) simp_all

lemma write_titles_join:
  "write_titles sep ts (des, n) = (des @ join sep ts, n + length (join sep ts))"
proof (induction ts arbitrary: des n)
  case Nil
  show ?case by simp
next
  case (Cons t ts)
  show ?case by (cases "ts = []") (simp_all add: Cons.IH join_Cons)
qed

lemma write_cells_join:
  assumes "\<forall>v\<in>set row. conv v = Some (Returned (str v))"
  shows "write_cells conv sep row (des, n) =
    Some (Returned (), (des @ join sep (map str row), n + length (join sep (map str row))))"
  using assms
proof (induction row arbitrary: des n)
  case Nil
  show ?case by simp
next
  case (Cons v vs)
  have c: "conv v = Some (Returned (str v))" using Cons.prems by simp
  have ih: "write_cells conv sep vs (d, k) =
      Some (Returned (), (d @ join sep (map str vs), k + length (join sep (map str vs))))" for d k
    using Cons.IH Cons.prems by simp
  show ?case by (cases "vs = []") (simp_all add: c ih join_Cons)
qed

lemma write_rows_join:
  assumes "\<forall>row\<in>set rows. \<forall>v\<in>set row. conv v = Some (Returned (str v))"
    and "term = (if mode = LF then [CHR 0x0A] else [CHR 0x0D, CHR 0x0A])"
  shows "write_rows conv sep mode rows (des, n) =
    Some (Returned (),
      (des @ concat (map (\<lambda>row. join sep (map str row) @ term) rows),
       n + length (concat (map (\<lambda>row. join sep (map str row) @ term) rows))))"
  using assms(1)
proof (induction rows arbitrary: des n)
  case Nil
  show ?case by simp
next
  case (Cons row rows)
  have c: "write_cells conv sep row (des, n) =
      Some (Returned (), (des @ join sep (map str row), n + length (join sep (map str row))))"
    using Cons.prems by (simp add: write_cells_join)
  have ih: "write_rows conv sep mode rows (d, k) =
      Some (Returned (),
        (d @ concat (map (\<lambda>row. join sep (map str row) @ term) rows),
         k + length (concat (map (\<lambda>row. join sep (map str row) @ term) rows))))" for d k
    using Cons.IH Cons.prems by simp
  have pe: "put_ending mode (d, k) = (d @ term, k + length term)" for d k
    by (simp add: put_ending_def assms(2))
  show ?case by (simp add: c ih pe)
qed

lemma write_rows_AUTO:
  "write_rows conv sep AUTO rows w = write_rows conv sep CRLF rows w"
  by (induction rows arbitrary: w)
    (auto simp: put_ending_def split: option.splits outcome.splits prod.splits)

lemma render_any_ending: "render_any (st\<lparr>ending := e\<rparr>) v = render_any st v"
  by (cases v) (simp_all add: render_any_def)

lemma write_CSV_AUTO:
  assumes "ending (settings c) = AUTO"
  shows "write_CSV c des = write_CSV (c\<lparr>settings := (settings c)\<lparr>ending := CRLF\<rparr>\<rparr>) des"
proof -
  have r: "render_any ((settings c)\<lparr>ending := CRLF\<rparr>) = render_any (settings c)"
    by (rule ext) (rule render_any_ending)
  show ?thesis
    by (simp add: write_CSV_def empty_CSV_def assms write_rows_AUTO put_ending_def r)
qed

lemma write_CSV_written:
  assumes "title c \<noteq> []"
    and "\<forall>row\<in>set (values c). \<forall>v\<in>set row.
          (if \<not> auto_derive_type (settings c) then any_cast_string else render_any (settings c)) v =
            Some (Returned (str v))"
    and "term = (if ending (settings c) = LF then [CHR 0x0A] else [CHR 0x0D, CHR 0x0A])"
    and "out = written (separator (settings c)) term (title c) (map (map str) (values c))"
  shows "write_CSV c des = Some (Returned (length out), des @ out)"
proof -
  let ?conv = "if \<not> auto_derive_type (settings c) then any_cast_string else render_any (settings c)"
  have pe: "put_ending (ending (settings c)) (d, k) = (d @ term, k + length term)" for d k
    by (simp add: put_ending_def assms(3))
  have t: "put_ending (ending (settings c)) (write_titles (separator (settings c)) (title c) (des, 0)) =
      (des @ join (separator (settings c)) (title c) @ term,
       length (join (separator (settings c)) (title c) @ term))"
    by (simp add: write_titles_join pe)
  have m: "concat (map (\<lambda>row. join sep (map str row) @ term) rows) =
      concat (map (\<lambda>row. join sep row @ term) (map (map str) rows))" for sep rows
    by (simp add: comp_def)
  show ?thesis
    unfolding write_CSV_def t
    using write_rows_join [OF assms(2,3), of "separator (settings c)"] assms(1)
    by (simp add: empty_CSV_def assms(4) written_def m)
qed

lemma set_join: "x \<in> set (join sep fs) \<Longrightarrow> x = sep \<or> (\<exists>f\<in>set fs. x \<in> set f)"
  by (induction sep fs rule: join.induct) auto

lemma join_not_Nil: "fs \<noteq> [] \<Longrightarrow> fs \<noteq> [[]] \<Longrightarrow> join sep fs \<noteq> []"
  by (induction sep fs rule: join.induct) auto

lemma header_fields_join:
  assumes "fs \<noteq> []" and "last fs \<noteq> []" and "\<forall>f\<in>set fs. sep \<notin> set f"
  shows "header_fields sep (join sep fs) = fs"
  using assms by (simp add: header_fields_def fields_join)

lemma skip_lf_terminator:
  assumes "good s" and "buf s = tl' @ rest"
    and "(d = CHR 0x0A \<and> tl' = []) \<or> (d = CHR 0x0D \<and> tl' = [CHR 0x0A])"
  shows "skip_lf d s = s\<lparr>buf := rest\<rparr>"
  using assms by (auto simp: skip_lf_def get_good_Cons)

lemma data_loop_written:
  assumes "good src"
    and "buf src = concat (map (\<lambda>r. join sep r @ d # tl') rows)"
    and "(d = CHR 0x0A \<and> tl' = []) \<or> (d = CHR 0x0D \<and> tl' = [CHR 0x0A])"
    and "separator (settings c) = sep" and "\<not> auto_derive_type (settings c)"
    and "\<forall>r\<in>set rows. length r = length (title c) \<and> r \<noteq> [] \<and> join sep r \<noteq> [] \<and>
           d \<notin> set (join sep r) \<and> (\<forall>f\<in>set r. sep \<notin> set f)"
  shows "data_loop d src line c = Some (Returned 0, c\<lparr>values := values c @ map (map Text) rows\<rparr>)"
  using assms(1,2,4,5,6)
proof (induction rows arbitrary: src line c)
  case Nil
  have g: "getline src line d = ([], src\<lparr>buf := [], eofbit := True, failbit := True\<rparr>)"
    using getline_end [of src d line] Nil.prems by simp
  show ?case
    by (subst data_loop_step [OF g]) simp
next
  case (Cons r rows)
  let ?rest = "concat (map (\<lambda>r. join sep r @ d # tl') rows)"
  have b: "buf src = join sep r @ d # (tl' @ ?rest)"
    using Cons.prems(2) by simp
  have r: "length r = length (title c)" "r \<noteq> []" "join sep r \<noteq> []" "d \<notin> set (join sep r)"
    "\<forall>f\<in>set r. sep \<notin> set f"
    using Cons.prems(5) by simp_all
  let ?s1 = "src\<lparr>buf := tl' @ ?rest\<rparr>"
  have g: "getline src line d = (join sep r, ?s1)"
    using getline_delim [OF Cons.prems(1) b r(4)] .
  have g1: "good ?s1" using Cons.prems(1) by (simp add: good_def)
  have sk: "skip_lf d ?s1 = src\<lparr>buf := ?rest\<rparr>"
    using skip_lf_terminator [OF g1 _ assms(3), of ?rest] by simp
  have g2: "good (src\<lparr>buf := ?rest\<rparr>)" using Cons.prems(1) by (simp add: good_def)
  then have ne: "\<not> eofbit (src\<lparr>buf := ?rest\<rparr>)" by (simp add: good_def)
  have cv: "convert_all (auto_derive_type (settings c)) (fields (separator (settings c)) (join sep r)) [] =
      Returned (map Text r)"
    using Cons.prems(3,4) r by (simp add: fields_join convert_all_False)
  let ?c' = "emplace_back c (map Text r)"
  have p': "separator (settings ?c') = sep" "\<not> auto_derive_type (settings ?c')"
    "\<forall>r\<in>set rows. length r = length (title ?c') \<and> r \<noteq> [] \<and> join sep r \<noteq> [] \<and>
           d \<notin> set (join sep r) \<and> (\<forall>f\<in>set r. sep \<notin> set f)"
    using Cons.prems(3,4,5) by (simp_all add: emplace_back_def)
  have ih: "data_loop d (src\<lparr>buf := ?rest\<rparr>) (join sep r) ?c' =
      Some (Returned 0, ?c'\<lparr>values := values ?c' @ map (map Text) rows\<rparr>)"
    using Cons.IH [OF g2 _ p'] by simp
  have fin: "?c'\<lparr>values := values ?c' @ map (map Text) rows\<rparr> =
      c\<lparr>values := values c @ map (map Text) (r # rows)\<rparr>"
    by (simp add: emplace_back_def)
  have step: "data_loop d src line c = data_loop d (src\<lparr>buf := ?rest\<rparr>) (join sep r) ?c'"
    by (subst data_loop_step [OF g]) (simp add: r(1,3) cv sk ne)
  show ?case unfolding step ih fin ..
qed

lemma parse_written:
  assumes "ending (settings c) = AUTO" and "separator (settings c) = sep"
    and "\<not> auto_derive_type (settings c)"
    and "(d = CHR 0x0A \<and> tl' = []) \<or> (d = CHR 0x0D \<and> tl' = [CHR 0x0A])"
    and "m = (if d = CHR 0x0D then CRLF else LF)"
    and "sep \<noteq> CHR 0x0D" and "sep \<noteq> CHR 0x0A"
    and "ts \<noteq> []" and "last ts \<noteq> []"
    and "\<forall>t\<in>set ts. sep \<notin> set t \<and> CHR 0x0D \<notin> set t \<and> CHR 0x0A \<notin> set t"
    and "\<forall>r\<in>set rows. length r = length ts \<and> r \<noteq> [[]] \<and>
           (\<forall>f\<in>set r. sep \<notin> set f \<and> d \<notin> set f)"
  shows "parse (istringstream (written sep (d # tl') ts rows)) c =
     Some (Returned 0, \<lparr>settings = (settings c)\<lparr>ending := m\<rparr>, title = ts,
                         values = map (map Text) rows\<rparr>)"
proof -
  let ?body = "concat (map (\<lambda>r. join sep r @ d # tl') rows)"
  let ?src = "istringstream (written sep (d # tl') ts rows)"
  let ?c2 = "c\<lparr>settings := (settings c)\<lparr>ending := m\<rparr>, title := ts, values := []\<rparr>"
  have g: "good ?src" by (simp add: good_def istringstream_def)
  have b: "buf ?src = join sep ts @ d # (tl' @ ?body)"
    by (simp add: istringstream_def written_def)
  have d: "d = CHR 0x0D \<or> d = CHR 0x0A" using assms(4) by auto
  have n: "CHR 0x0D \<notin> set (join sep ts)" "CHR 0x0A \<notin> set (join sep ts)"
    using assms(6,7,10) set_join [of _ sep ts] by blast+
  have s: "scan_header ?src [] AUTO = Some (?src\<lparr>buf := tl' @ ?body\<rparr>, join sep ts, m)"
    using scan_header_found [OF g b d n, of "[]" AUTO] assms(5) by simp
  have "ts \<noteq> [[]]" using assms(9) by auto
  then have ne: "join sep ts \<noteq> []"
    using assms(8) join_not_Nil [of ts sep] by simp
  have h: "header_fields sep (join sep ts) = ts"
    using header_fields_join [OF assms(8,9)] assms(10) by simp
  have dm: "delim_of m = d"
    using d assms(5) by (auto simp: delim_of_def)
  have g1: "good (?src\<lparr>buf := tl' @ ?body\<rparr>)" by (simp add: good_def istringstream_def)
  have sk: "skip_lf d (?src\<lparr>buf := tl' @ ?body\<rparr>) = ?src\<lparr>buf := ?body\<rparr>"
    using skip_lf_terminator [OF g1 _ assms(4), of ?body] by simp
  have g2: "good (?src\<lparr>buf := ?body\<rparr>)" by (simp add: good_def istringstream_def)
  have rows: "\<forall>r\<in>set rows. length r = length (title ?c2) \<and> r \<noteq> [] \<and> join sep r \<noteq> [] \<and>
           d \<notin> set (join sep r) \<and> (\<forall>f\<in>set r. sep \<notin> set f)"
  proof
    fix r assume r: "r \<in> set rows"
    then have l: "length r = length ts" and e: "r \<noteq> [[]]"
      and f: "\<forall>f\<in>set r. sep \<notin> set f \<and> d \<notin> set f"
      using assms(11) by auto
    have r0: "r \<noteq> []" using l assms(8) by auto
    have sd: "sep \<noteq> d" using d assms(6,7) by auto
    have "d \<notin> set (join sep r)" using set_join [of d sep r] f sd by blast
    then show "length r = length (title ?c2) \<and> r \<noteq> [] \<and> join sep r \<noteq> [] \<and>
           d \<notin> set (join sep r) \<and> (\<forall>f\<in>set r. sep \<notin> set f)"
      using l r0 e f join_not_Nil [OF r0 e, of sep] by simp
  qed
  have dl: "data_loop d (?src\<lparr>buf := ?body\<rparr>) (join sep ts) ?c2 =
      Some (Returned 0, ?c2\<lparr>values := values ?c2 @ map (map Text) rows\<rparr>)"
    using data_loop_written [OF g2 _ assms(4) _ _ rows, where line = "join sep ts"] assms(2,3)
    by simp
  have p: "parse ?src c = data_loop d (?src\<lparr>buf := ?body\<rparr>) (join sep ts) ?c2"
    by (simp add: parse_def detect_header_def assms(1,2) s ne header_loop_istringstream h dm sk)
  show ?thesis unfolding p dl by simp
qed

lemma any_cast_string_Text:
  "\<exists>str. v = Text str \<and> P str \<Longrightarrow> any_cast_string v = Some (Returned (cell_text v))"
  by auto

lemma map_Text_cell_text:
  "\<forall>v\<in>set row. \<exists>str. v = Text str \<and> P str \<Longrightarrow> map Text (map cell_text row) = row"
  by (induction row) auto

lemma map_map_id: "(\<And>x. x \<in> set xs \<Longrightarrow> f (g x) = x) \<Longrightarrow> map f (map g xs) = xs"
  by (induction xs) auto

lemma cell_text_free:
  "\<forall>v\<in>set row. \<exists>str. v = Text str \<and> x \<notin> set str \<and> y \<notin> set str \<Longrightarrow>
   \<forall>f\<in>set (map cell_text row). x \<notin> set f \<and> y \<notin> set f"
  by (induction row) auto

lemma parse_explicit_mode:
  "ending (settings c) \<noteq> AUTO \<Longrightarrow> parse src c = Some (Returned (- 1), c)"
  by (simp add: parse_def detect_header_def)

text \<open>
  Tables that \<open>write\<close> followed by \<open>parse\<close> in the mode \<open>AUTO\<close> does not give back:
  a table without titles is written as the empty text, which parses to one title and
  one row holding the byte \<open>0xFF\<close>; a trailing empty title is dropped; a single
  empty cell makes an empty line, which is an error; a line feed in a cell splits
  the row in the mode \<open>LF\<close>; a line feed as separator ends the header early.
\<close>

lemma round_trip_needs_a_title:
  "write_CSV \<lparr>settings = Settings_default, title = [], values = []\<rparr> [] = Some (Returned 0, []) \<and>
   CSV_of_string [] (Settings_default\<lparr>ending := AUTO\<rparr>) =
     Some (Returned \<lparr>settings = Settings_default\<lparr>ending := AUTO\<rparr>, title = [[CHR 0xFF]],
                      values = [[Text [CHR 0xFF]]]\<rparr>)"
  by code_simp

lemma round_trip_drops_trailing_empty_title:
  "write_CSV \<lparr>settings = Settings_default, title = [''a'', []], values = []\<rparr> [] =
     Some (Returned 3, [CHR ''a'', CHR '','', CHR 0x0A]) \<and>
   CSV_of_string [CHR ''a'', CHR '','', CHR 0x0A] (Settings_default\<lparr>ending := AUTO\<rparr>) =
     Some (Returned \<lparr>settings = Settings_default, title = [''a''], values = []\<rparr>)"
  by code_simp

lemma round_trip_single_empty_cell:
  "write_CSV \<lparr>settings = Settings_default, title = [''a''], values = [[Text []]]\<rparr> [] =
     Some (Returned 3, [CHR ''a'', CHR 0x0A, CHR 0x0A]) \<and>
   CSV_of_string [CHR ''a'', CHR 0x0A, CHR 0x0A] (Settings_default\<lparr>ending := AUTO\<rparr>) =
     Some (Thrown EmptyLine)"
  by code_simp

lemma round_trip_line_feed_in_cell:
  "write_CSV \<lparr>settings = Settings_default, title = [''a''],
              values = [[Text [CHR ''x'', CHR 0x0A, CHR ''y'']]]\<rparr> [] =
     Some (Returned 6, [CHR ''a'', CHR 0x0A, CHR ''x'', CHR 0x0A, CHR ''y'', CHR 0x0A]) \<and>
   CSV_of_string [CHR ''a'', CHR 0x0A, CHR ''x'', CHR 0x0A, CHR ''y'', CHR 0x0A]
       (Settings_default\<lparr>ending := AUTO\<rparr>) =
     Some (Returned \<lparr>settings = Settings_default, title = [''a''],
                      values = [[Text ''x''], [Text ''y'']]\<rparr>)"
  by code_simp

lemma round_trip_line_feed_as_separator:
  "write_CSV \<lparr>settings = Settings_default\<lparr>separator := CHR 0x0A\<rparr>, title = [''a'', ''b''],
              values = []\<rparr> [] =
     Some (Returned 4, [CHR ''a'', CHR 0x0A, CHR ''b'', CHR 0x0A]) \<and>
   CSV_of_string [CHR ''a'', CHR 0x0A, CHR ''b'', CHR 0x0A]
       (Settings_default\<lparr>separator := CHR 0x0A, ending := AUTO\<rparr>) =
     Some (Returned \<lparr>settings = Settings_default\<lparr>separator := CHR 0x0A\<rparr>, title = [''a''],
                      values = [[Text ''b'']]\<rparr>)"
  by code_simp

lemma data_loop_last_line:
  assumes "good src" and "buf src = fin" and "d \<notin> set fin"
    and "fin \<noteq> [] \<longrightarrow>
           convert_all (auto_derive_type (settings c)) (fields (separator (settings c)) fin) [] =
             Returned row \<and> length row = length (title c)"
  shows "data_loop d src line c =
     Some (Returned 0, c\<lparr>values := values c @ (if fin = [] then [] else [row])\<rparr>)"
proof -
  have n: "d \<notin> set (buf src)" using assms(2,3) by simp
  have g: "getline src line d = (fin, src\<lparr>buf := [], eofbit := True, failbit := (fin = [])\<rparr>)"
    using getline_end [OF assms(1) n, of line] assms(2) by simp
  have e: "eofbit (skip_lf d (src\<lparr>buf := [], eofbit := True, failbit := x\<rparr>))" for x
    by (simp add: skip_lf_eof)
  show ?thesis
  proof (cases "fin = []")
    case True
    show ?thesis by (subst data_loop_step [OF g]) (simp add: True)
  next
    case False
    have cv: "convert_all (auto_derive_type (settings c)) (fields (separator (settings c)) fin) [] =
        Returned row" and len: "length row = length (title c)"
      using assms(4) False by simp_all
    show ?thesis
      by (subst data_loop_step [OF g]) (simp add: False cv len e emplace_back_def)
  qed
qed

lemma data_loop_lines:
  assumes "good src"
    and "buf src = concat (map (\<lambda>l. l @ d # tl') lines) @ fin"
    and "(d = CHR 0x0A \<and> tl' = []) \<or> (d = CHR 0x0D \<and> tl' = [CHR 0x0A])"
    and "d \<notin> set fin"
    and "\<forall>l\<in>set lines.
           l \<noteq> [] \<and> d \<notin> set l \<and>
           convert_all (auto_derive_type (settings c)) (fields (separator (settings c)) l) [] =
             Returned (rowf l) \<and>
           length (rowf l) = length (title c)"
    and "fin \<noteq> [] \<longrightarrow>
           convert_all (auto_derive_type (settings c)) (fields (separator (settings c)) fin) [] =
             Returned (rowf fin) \<and>
           length (rowf fin) = length (title c)"
  shows "data_loop d src line c =
     Some (Returned 0,
           c\<lparr>values := values c @ map rowf lines @ (if fin = [] then [] else [rowf fin])\<rparr>)"
  using assms(1,2,5,6)
proof (induction lines arbitrary: src line c)
  case Nil
  have b: "buf src = fin" using Nil.prems(2) by simp
  show ?case
    using data_loop_last_line [OF Nil.prems(1) b assms(4) Nil.prems(4), of line] by simp
next
  case (Cons l lines)
  let ?rest = "concat (map (\<lambda>l. l @ d # tl') lines) @ fin"
  let ?tail = "if fin = [] then [] else [rowf fin]"
  have b: "buf src = l @ d # (tl' @ ?rest)"
    using Cons.prems(2) by simp
  have r: "l \<noteq> []" "d \<notin> set l"
    "convert_all (auto_derive_type (settings c)) (fields (separator (settings c)) l) [] =
       Returned (rowf l)"
    "length (rowf l) = length (title c)"
    using Cons.prems(3) by simp_all
  let ?s1 = "src\<lparr>buf := tl' @ ?rest\<rparr>"
  have g: "getline src line d = (l, ?s1)"
    using getline_delim [OF Cons.prems(1) b r(2)] .
  have g1: "good ?s1" using Cons.prems(1) by (simp add: good_def)
  have sk: "skip_lf d ?s1 = src\<lparr>buf := ?rest\<rparr>"
    using skip_lf_terminator [OF g1 _ assms(3), of ?rest] by simp
  have g2: "good (src\<lparr>buf := ?rest\<rparr>)" using Cons.prems(1) by (simp add: good_def)
  then have ne: "\<not> eofbit (src\<lparr>buf := ?rest\<rparr>)" by (simp add: good_def)
  let ?c' = "emplace_back c (rowf l)"
  have st: "settings ?c' = settings c" "title ?c' = title c"
    by (simp_all add: emplace_back_def)
  have p1: "\<forall>l\<in>set lines.
           l \<noteq> [] \<and> d \<notin> set l \<and>
           convert_all (auto_derive_type (settings ?c')) (fields (separator (settings ?c')) l) [] =
             Returned (rowf l) \<and>
           length (rowf l) = length (title ?c')"
    unfolding st using Cons.prems(3) by simp
  have p2: "fin \<noteq> [] \<longrightarrow>
           convert_all (auto_derive_type (settings ?c')) (fields (separator (settings ?c')) fin) [] =
             Returned (rowf fin) \<and>
           length (rowf fin) = length (title ?c')"
    unfolding st using Cons.prems(4) .
  have b2: "buf (src\<lparr>buf := ?rest\<rparr>) = ?rest" by simp
  have ih: "data_loop d (src\<lparr>buf := ?rest\<rparr>) l ?c' =
      Some (Returned 0, ?c'\<lparr>values := values ?c' @ map rowf lines @ ?tail\<rparr>)"
    using Cons.IH [OF g2 b2 p1 p2] .
  have fin: "?c'\<lparr>values := values ?c' @ map rowf lines @ ?tail\<rparr> =
      c\<lparr>values := values c @ map rowf (l # lines) @ ?tail\<rparr>"
    by (simp add: emplace_back_def)
  have step: "data_loop d src line c = data_loop d (src\<lparr>buf := ?rest\<rparr>) l ?c'"
    by (subst data_loop_step [OF g]) (simp add: r(1,3,4) sk ne)
  show ?case unfolding step ih fin ..
qed

text \<open>
  Nothing quotes a separator inside a cell: the row is read back with one field too
  many.
\<close>

lemma round_trip_separator_in_cell:
  "write_CSV \<lparr>settings = Settings_default, title = [''a''], values = [[Text ''1,2'']]\<rparr> [] =
     Some (Returned 6, [CHR ''a'', CHR 0x0A, CHR ''1'', CHR '','', CHR ''2'', CHR 0x0A]) \<and>
   CSV_of_string [CHR ''a'', CHR 0x0A, CHR ''1'', CHR '','', CHR ''2'', CHR 0x0A]
       (Settings_default\<lparr>ending := AUTO\<rparr>) =
     Some (Thrown InvalidDataline)"
  by code_simp

text \<open>
  When the text is read back in the mode \<open>AUTO\<close>, \<open>write\<close> followed by \<open>parse\<close>
  gives the titles and the rows back for every table whose text is unambiguous: at
  least one title, the last title not empty, no title containing the separator, a
  carriage return or a line feed, a separator that is neither of these two,
  auto-inference off, and every row as long as the header, made of \<open>Text\<close> cells that
  contain neither the separator nor the character that ends a line in the table's
  mode, and not a single empty cell. The mode of the result is the one detected.
\<close>

lemma round_trip_parsed_in_AUTO_mode:
  assumes "title T \<noteq> []" and "last (title T) \<noteq> []"
    and "separator (settings T) \<noteq> CHR 0x0D" and "separator (settings T) \<noteq> CHR 0x0A"
    and "\<not> auto_derive_type (settings T)"
    and "\<forall>t\<in>set (title T).
           separator (settings T) \<notin> set t \<and> CHR 0x0D \<notin> set t \<and> CHR 0x0A \<notin> set t"
    and "\<forall>row\<in>set (values T).
           length row = length (title T) \<and> row \<noteq> [Text []] \<and>
           (\<forall>v\<in>set row. \<exists>str. v = Text str \<and> separator (settings T) \<notin> set str \<and>
                                   delim_of (ending (settings T)) \<notin> set str)"
  shows "\<exists>n text.
           write_CSV T [] = Some (Returned n, text) \<and>
           CSV_of_string text ((settings T)\<lparr>ending := AUTO\<rparr>) =
             Some (Returned (T\<lparr>settings := (settings T)
                      \<lparr>ending := (if ending (settings T) = LF then LF else CRLF)\<rparr>\<rparr>))"
proof -
  define sep where "sep = separator (settings T)"
  define d where "d = delim_of (ending (settings T))"
  define tl' where "tl' = (if ending (settings T) = LF then [] else [CHR 0x0A])"
  define rows where "rows = map (map cell_text) (values T)"
  define out where "out = written sep (d # tl') (title T) rows"
  have dt: "(d = CHR 0x0A \<and> tl' = []) \<or> (d = CHR 0x0D \<and> tl' = [CHR 0x0A])"
    by (simp add: d_def tl'_def delim_of_def)
  have tm: "d # tl' = (if ending (settings T) = LF then [CHR 0x0A] else [CHR 0x0D, CHR 0x0A])"
    by (simp add: d_def tl'_def delim_of_def)
  have cells: "\<forall>row\<in>set (values T). \<forall>v\<in>set row.
      (if \<not> auto_derive_type (settings T) then any_cast_string else render_any (settings T)) v =
        Some (Returned (cell_text v))"
  proof (intro ballI)
    fix row v assume "row \<in> set (values T)" "v \<in> set row"
    then have "\<exists>str. v = Text str \<and>
        (separator (settings T) \<notin> set str \<and> delim_of (ending (settings T)) \<notin> set str)"
      using assms(7) by blast
    then have "any_cast_string v = Some (Returned (cell_text v))"
      by (rule any_cast_string_Text)
    then show "(if \<not> auto_derive_type (settings T) then any_cast_string
        else render_any (settings T)) v = Some (Returned (cell_text v))"
      using assms(5) by simp
  qed
  have w: "write_CSV T [] = Some (Returned (length out), out)"
    using write_CSV_written [OF assms(1) cells tm, of out "[]"]
    by (simp add: out_def sep_def rows_def)
  have row_back: "map Text (map cell_text row) = row" if "row \<in> set (values T)" for row
  proof -
    have "\<forall>v\<in>set row. \<exists>str. v = Text str \<and>
        (separator (settings T) \<notin> set str \<and> delim_of (ending (settings T)) \<notin> set str)"
      using assms(7) that by blast
    then show ?thesis by (rule map_Text_cell_text)
  qed
  have vals: "map (map Text) rows = values T"
    unfolding rows_def by (rule map_map_id) (rule row_back)
  have rs: "\<forall>r\<in>set rows. length r = length (title T) \<and> r \<noteq> [[]] \<and>
      (\<forall>f\<in>set r. sep \<notin> set f \<and> d \<notin> set f)"
  proof
    fix r assume "r \<in> set rows"
    then obtain row where row: "row \<in> set (values T)" and r: "r = map cell_text row"
      by (auto simp: rows_def)
    have a: "length row = length (title T)" and b: "row \<noteq> [Text []]"
      and c: "\<forall>v\<in>set row. \<exists>str. v = Text str \<and> sep \<notin> set str \<and> d \<notin> set str"
      using assms(7) row unfolding sep_def d_def by blast+
    have "map Text r = row" unfolding r using row by (rule row_back)
    then have "r \<noteq> [[]]" using b by auto
    moreover have "\<forall>f\<in>set r. sep \<notin> set f \<and> d \<notin> set f"
      unfolding r using c by (rule cell_text_free)
    ultimately show "length r = length (title T) \<and> r \<noteq> [[]] \<and>
      (\<forall>f\<in>set r. sep \<notin> set f \<and> d \<notin> set f)"
      using a by (simp add: r)
  qed
  let ?s = "(settings T)\<lparr>ending := AUTO\<rparr>"
  have m: "(if ending (settings T) = LF then LF else CRLF) = (if d = CHR 0x0D then CRLF else LF)"
    by (simp add: d_def delim_of_def)
  have ts: "\<forall>t\<in>set (title T). sep \<notin> set t \<and> CHR 0x0D \<notin> set t \<and> CHR 0x0A \<notin> set t"
    using assms(6) by (simp add: sep_def)
  have p: "parse (istringstream out) (CSV_new ?s) =
      Some (Returned 0, \<lparr>settings = (settings (CSV_new ?s))
                \<lparr>ending := (if ending (settings T) = LF then LF else CRLF)\<rparr>,
              title = title T, values = map (map Text) rows\<rparr>)"
    unfolding out_def
    by (rule parse_written [OF _ _ _ dt m _ _ assms(1,2) ts rs])
      (simp_all add: CSV_new_def sep_def assms(3,4,5))
  have eq: "\<lparr>settings = (settings (CSV_new ?s))\<lparr>ending := (if ending (settings T) = LF then LF else CRLF)\<rparr>,
        title = title T, values = map (map Text) rows\<rparr> =
      T\<lparr>settings := (settings T)\<lparr>ending := (if ending (settings T) = LF then LF else CRLF)\<rparr>\<rparr>"
    unfolding vals by (cases T) (simp add: CSV_new_def)
  have "CSV_of_string out ?s =
      Some (Returned (T\<lparr>settings := (settings T)
          \<lparr>ending := (if ending (settings T) = LF then LF else CRLF)\<rparr>\<rparr>))"
    unfolding CSV_of_string_def CSV_of_stream_def p eq by simp
  then show ?thesis using w by blast
qed

section \<open>The claims\<close>

text \<open>
  C1 (evaluated on the code): with the mode set to \<open>LF\<close>, the separator a comma and
  auto-inference off, which are the default settings, \<open>parse\<close> reads nothing into
  \<open>line\<close>, finds it empty and returns \<open>-1\<close>: the table built from
  \<open>a,b\<close>, \<open>1,2\<close>, \<open>3,4\<close> (each line ended by a line feed) has no title and no row.
  The same text parsed in the mode \<open>AUTO\<close> gives the two titles and the two rows.
\<close>

theorem C1_explicit_LF_reads_nothing:
  "parse (istringstream [CHR ''a'', CHR '','', CHR ''b'', CHR 0x0A, CHR ''1'', CHR '','', CHR ''2'',
            CHR 0x0A, CHR ''3'', CHR '','', CHR ''4'', CHR 0x0A]) (CSV_new Settings_default) =
     Some (Returned (- 1), CSV_new Settings_default) \<and>
   CSV_of_string [CHR ''a'', CHR '','', CHR ''b'', CHR 0x0A, CHR ''1'', CHR '','', CHR ''2'',
            CHR 0x0A, CHR ''3'', CHR '','', CHR ''4'', CHR 0x0A] Settings_default =
     Some (Returned \<lparr>settings = Settings_default, title = [], values = []\<rparr>) \<and>
   CSV_of_string [CHR ''a'', CHR '','', CHR ''b'', CHR 0x0A, CHR ''1'', CHR '','', CHR ''2'',
            CHR 0x0A, CHR ''3'', CHR '','', CHR ''4'', CHR 0x0A] (Settings_default\<lparr>ending := AUTO\<rparr>) =
     Some (Returned \<lparr>settings = Settings_default, title = [''a'', ''b''],
                      values = [[Text ''1'', Text ''2''], [Text ''3'', Text ''4'']]\<rparr>)"
  by code_simp

text \<open>
  C2 (evaluated on the code): the table with the titles \<open>a\<close>, \<open>b\<close> and the rows
  \<open>1\<close>, \<open>2\<close> and \<open>3\<close>, \<open>4\<close>, all of them \<open>Text\<close>, is valid and holds nothing that
  the format could misread. Written with the separator comma in the mode \<open>LF\<close> it is
  three lines ended by a line feed, in the mode \<open>CRLF\<close> three lines ended by a
  carriage return and a line feed. Parsed under the same settings, either text gives
  a table with no title and no row, not the table written: with an explicit mode
  \<open>parse\<close> reads nothing into \<open>line\<close> and returns \<open>-1\<close>. The same text parsed in the
  mode \<open>AUTO\<close> gives the table back.
\<close>

theorem C2_same_settings_parse_is_empty:
  "write_CSV \<lparr>settings = Settings_default, title = [''a'', ''b''],
              values = [[Text ''1'', Text ''2''], [Text ''3'', Text ''4'']]\<rparr> [] =
     Some (Returned 12, [CHR ''a'', CHR '','', CHR ''b'', CHR 0x0A, CHR ''1'', CHR '','', CHR ''2'',
                         CHR 0x0A, CHR ''3'', CHR '','', CHR ''4'', CHR 0x0A]) \<and>
   CSV_of_string [CHR ''a'', CHR '','', CHR ''b'', CHR 0x0A, CHR ''1'', CHR '','', CHR ''2'',
                  CHR 0x0A, CHR ''3'', CHR '','', CHR ''4'', CHR 0x0A] Settings_default =
     Some (Returned \<lparr>settings = Settings_default, title = [], values = []\<rparr>) \<and>
   write_CSV \<lparr>settings = Settings_default\<lparr>ending := CRLF\<rparr>, title = [''a'', ''b''],
              values = [[Text ''1'', Text ''2''], [Text ''3'', Text ''4'']]\<rparr> [] =
     Some (Returned 15, [CHR ''a'', CHR '','', CHR ''b'', CHR 0x0D, CHR 0x0A,
                         CHR ''1'', CHR '','', CHR ''2'', CHR 0x0D, CHR 0x0A,
                         CHR ''3'', CHR '','', CHR ''4'', CHR 0x0D, CHR 0x0A]) \<and>
   CSV_of_string [CHR ''a'', CHR '','', CHR ''b'', CHR 0x0D, CHR 0x0A,
                  CHR ''1'', CHR '','', CHR ''2'', CHR 0x0D, CHR 0x0A,
                  CHR ''3'', CHR '','', CHR ''4'', CHR 0x0D, CHR 0x0A]
       (Settings_default\<lparr>ending := CRLF\<rparr>) =
     Some (Returned \<lparr>settings = Settings_default\<lparr>ending := CRLF\<rparr>, title = [], values = []\<rparr>) \<and>
   CSV_of_string [CHR ''a'', CHR '','', CHR ''b'', CHR 0x0A, CHR ''1'', CHR '','', CHR ''2'',
                  CHR 0x0A, CHR ''3'', CHR '','', CHR ''4'', CHR 0x0A]
       (Settings_default\<lparr>ending := AUTO\<rparr>) =
     Some (Returned \<lparr>settings = Settings_default, title = [''a'', ''b''],
                      values = [[Text ''1'', Text ''2''], [Text ''3'', Text ''4'']]\<rparr>)"
  by code_simp

text \<open>
  C3, as stated, fails: in the mode \<open>AUTO\<close> a stream that starts with a line feed has
  an empty header line, and \<open>parse\<close> returns \<open>-1\<close> without throwing; the constructor
  drops the \<open>-1\<close> and returns an empty table.
\<close>

theorem C3_counterexample:
  "parse (istringstream [CHR 0x0A, CHR ''1'', CHR 0x0A]) (CSV_new (Settings_default\<lparr>ending := AUTO\<rparr>)) =
     Some (Returned (- 1), CSV_new Settings_default) \<and>
   CSV_of_string [CHR 0x0A, CHR ''1'', CHR 0x0A] (Settings_default\<lparr>ending := AUTO\<rparr>) =
     Some (Returned \<lparr>settings = Settings_default, title = [], values = []\<rparr>)"
  by code_simp

text \<open>
  C3, amended: whenever the header line that the first phase of \<open>parse\<close> leaves in
  \<open>line\<close> is empty, \<open>parse\<close> throws nothing: it returns the status \<open>-1\<close> at once,
  with the titles and the rows as they were (only the mode may have been fixed by
  the detection).
\<close>

theorem C3_empty_header_returns_minus_one:
  assumes "detect_header src (ending (settings c)) = Some (src1, [], m)"
  shows "parse src c = Some (Returned (- 1), c\<lparr>settings := (settings c)\<lparr>ending := m\<rparr>\<rparr>) \<and>
         (\<forall>r c'. parse src c = Some (r, c') \<longrightarrow>
            r = Returned (- 1) \<and> title c' = title c \<and> values c' = values c)"
proof -
  have p: "parse src c = Some (Returned (- 1), c\<lparr>settings := (settings c)\<lparr>ending := m\<rparr>\<rparr>)"
    by (simp add: parse_def assms)
  show ?thesis unfolding p by simp
qed

theorem C3_empty_header_returns_minus_one_witness:
  "detect_header (istringstream [CHR 0x0D, CHR 0x0A, CHR ''1''])
      (ending (settings (CSV_new (Settings_default\<lparr>ending := AUTO\<rparr>)))) =
     Some (\<lparr>buf = [CHR 0x0A, CHR ''1''], eofbit = False, failbit = False\<rparr>, [], CRLF) \<and>
   parse (istringstream [CHR 0x0D, CHR 0x0A, CHR ''1'']) (CSV_new (Settings_default\<lparr>ending := AUTO\<rparr>)) =
     Some (Returned (- 1), CSV_new (Settings_default\<lparr>ending := CRLF\<rparr>))"
proof -
  let ?src = "istringstream [CHR 0x0D, CHR 0x0A, CHR ''1'']"
  let ?s = "Settings_default\<lparr>ending := AUTO\<rparr>"
  have h: "detect_header ?src (ending (settings (CSV_new ?s))) =
           Some (\<lparr>buf = [CHR 0x0A, CHR ''1''], eofbit = False, failbit = False\<rparr>, [], CRLF)"
    by code_simp
  have e: "(CSV_new ?s)\<lparr>settings := (settings (CSV_new ?s))\<lparr>ending := CRLF\<rparr>\<rparr> =
      CSV_new (Settings_default\<lparr>ending := CRLF\<rparr>)"
    by (simp add: CSV_new_def Settings_default_def)
  have "parse ?src (CSV_new ?s) = Some (Returned (- 1), CSV_new (Settings_default\<lparr>ending := CRLF\<rparr>))"
    using C3_empty_header_returns_minus_one [OF h, THEN conjunct1] unfolding e .
  then show ?thesis using h by blast
qed

text \<open>
  C4 (evaluated on the code): \<open>detectType\<close> applied to the empty string does not return
  \<open>Text('''')\<close>: the bounds-checked \<open>str.at(0)\<close> throws \<open>std::out_of_range\<close>.
\<close>

theorem C4_detectType_empty_throws: "detectType [] = Thrown StdOutOfRange"
  by (simp add: detectType_def)

text \<open>
  C5: the five sample classifications of \<open>detectType\<close>: a run of digits is an
  \<open>Integer\<close>, digits with one decimal point are a \<open>Float\<close>, a second decimal point
  makes the field \<open>Text\<close>, a field wrapped in double quotes loses them, and a leading
  minus sign is accepted.
\<close>

theorem C5_detectType_samples:
  "detectType ''123'' = Returned (Integer 123) \<and>
   detectType ''12.5'' = Returned (Float (25 / 2)) \<and>
   detectType ''12.5.3'' = Returned (Text ''12.5.3'') \<and>
   detectType [CHR 0x22, CHR ''a'', CHR ''b'', CHR ''c'', CHR 0x22] = Returned (Text ''abc'') \<and>
   detectType ''-7'' = Returned (Integer (- 7))"
  by (simp add: detectType_def stoll_def stod_def is_digit_def is_space_def
      digits_val_def digit_val_def)

text \<open>
  C6: in the mode \<open>AUTO\<close>, on a good stream whose first carriage return or line feed
  is \<open>t\<close>, after the characters \<open>pre\<close>, the first loop stops at \<open>t\<close> with \<open>pre\<close> as
  the header line and fixes the mode \<open>m\<close>: \<open>CRLF\<close> for a carriage return, \<open>LF\<close> for a
  line feed. When \<open>pre\<close> is empty \<open>parse\<close> returns \<open>-1\<close>. Otherwise the titles are
  the header fields of \<open>pre\<close>; for \<open>CRLF\<close> the character after the carriage return is
  read and dropped; the data loop runs on what follows with the delimiter of \<open>m\<close>
  for every line, and \<open>m\<close> is the mode of the table when \<open>parse\<close> is over.

  The last part says what the fixed mode does to the remaining lines. Let the rest
  of the stream be the lines \<open>lines\<close>, each followed by the terminator of \<open>m\<close> (\<open>t\<close>
  alone for \<open>LF\<close>, \<open>t\<close> and a line feed for \<open>CRLF\<close>), and then a last line \<open>fin\<close>
  that may be empty and has no terminator. The lines are not empty and do not
  contain \<open>t\<close>, but they may contain the other character: a bare line feed in the
  mode \<open>CRLF\<close>, a carriage return in the mode \<open>LF\<close>. When the row loop turns every
  line \<open>l\<close> into a row \<open>rowf l\<close> as long as the header, \<open>parse\<close> returns \<open>0\<close> and the
  rows of the table are exactly these rows, one for each line, in order: the lines
  are split at the terminator of \<open>m\<close> and nowhere else.
\<close>

theorem C6_auto_mode_fixed_by_first_terminator:
  assumes "ending (settings c) = AUTO" and "good src"
    and "buf src = pre @ t # rest" and "t = CHR 0x0D \<or> t = CHR 0x0A"
    and "CHR 0x0D \<notin> set pre" and "CHR 0x0A \<notin> set pre"
    and "m = (if t = CHR 0x0D then CRLF else LF)"
  shows "scan_header src [] AUTO = Some (src\<lparr>buf := rest\<rparr>, pre, m) \<and>
         parse src c =
           (if pre = [] then Some (Returned (- 1), c\<lparr>settings := (settings c)\<lparr>ending := m\<rparr>\<rparr>)
            else data_loop (delim_of m) (skip_lf (delim_of m) (src\<lparr>buf := rest\<rparr>)) pre
                   (c\<lparr>settings := (settings c)\<lparr>ending := m\<rparr>,
                      title := header_fields (separator (settings c)) pre, values := []\<rparr>)) \<and>
         delim_of m = t \<and>
         (t = CHR 0x0D \<and> rest = ch # rest' \<longrightarrow>
            skip_lf (delim_of m) (src\<lparr>buf := rest\<rparr>) = src\<lparr>buf := rest'\<rparr>) \<and>
         (t = CHR 0x0A \<longrightarrow> skip_lf (delim_of m) (src\<lparr>buf := rest\<rparr>) = src\<lparr>buf := rest\<rparr>) \<and>
         (\<exists>r c'. parse src c = Some (r, c') \<and> ending (settings c') = m \<and>
            (pre \<noteq> [] \<longrightarrow> title c' = header_fields (separator (settings c)) pre)) \<and>
         (pre \<noteq> [] \<and>
          tl' = (if t = CHR 0x0D then [CHR 0x0A] else []) \<and>
          rest = tl' @ concat (map (\<lambda>l. l @ t # tl') lines) @ fin \<and>
          t \<notin> set fin \<and>
          (\<forall>l\<in>set lines.
             l \<noteq> [] \<and> t \<notin> set l \<and>
             row_loop (auto_derive_type (settings c)) (separator (settings c)) (istringstream l) [] =
               Some (Returned (rowf l)) \<and>
             length (rowf l) = length (header_fields (separator (settings c)) pre)) \<and>
          (fin \<noteq> [] \<longrightarrow>
             row_loop (auto_derive_type (settings c)) (separator (settings c)) (istringstream fin) [] =
               Some (Returned (rowf fin)) \<and>
             length (rowf fin) = length (header_fields (separator (settings c)) pre)) \<longrightarrow>
          parse src c =
            Some (Returned 0,
                  \<lparr>settings = (settings c)\<lparr>ending := m\<rparr>,
                   title = header_fields (separator (settings c)) pre,
                   values = map rowf lines @ (if fin = [] then [] else [rowf fin])\<rparr>))"
proof -
  let ?c1 = "c\<lparr>settings := (settings c)\<lparr>ending := m\<rparr>\<rparr>"
  let ?c2 = "?c1\<lparr>title := header_fields (separator (settings c)) pre, values := []\<rparr>"
  let ?s1 = "src\<lparr>buf := rest\<rparr>"
  have s: "scan_header src [] AUTO = Some (?s1, pre, m)"
    using scan_header_found [OF assms(2-6), of "[]" AUTO] assms(7) by simp
  have p: "parse src c =
      (if pre = [] then Some (Returned (- 1), ?c1)
       else data_loop (delim_of m) (skip_lf (delim_of m) ?s1) pre ?c2)"
    by (simp add: parse_def detect_header_def assms(1) s header_loop_istringstream)
  have d: "delim_of m = t"
    using assms(4,7) by (auto simp: delim_of_def)
  have g1: "good ?s1" using assms(2) by (simp add: good_def)
  have k1: "t = CHR 0x0D \<and> rest = ch # rest' \<longrightarrow> skip_lf (delim_of m) ?s1 = src\<lparr>buf := rest'\<rparr>"
    using skip_lf_CR [OF g1, of ch rest'] d by auto
  have k2: "t = CHR 0x0A \<longrightarrow> skip_lf (delim_of m) ?s1 = ?s1"
    using d by (auto simp: skip_lf_LF)
  have e: "\<exists>r c'. parse src c = Some (r, c') \<and> ending (settings c') = m \<and>
      (pre \<noteq> [] \<longrightarrow> title c' = header_fields (separator (settings c)) pre)"
  proof (cases "pre = []")
    case True
    then show ?thesis using p by simp
  next
    case False
    have "eofbit (skip_lf (delim_of m) ?s1) \<or> good (skip_lf (delim_of m) ?s1)"
      using skip_lf_sane g1 by blast
    then obtain y where y: "data_loop (delim_of m) (skip_lf (delim_of m) ?s1) pre ?c2 = Some y"
      using data_loop_returns by blast
    obtain r c' where rc: "y = (r, c')" by (cases y)
    have "settings c' = settings ?c2 \<and> title c' = title ?c2"
      using data_loop_settings y rc by blast
    then show ?thesis using p False y rc by simp
  qed
  have f: "parse src c =
      Some (Returned 0,
            \<lparr>settings = (settings c)\<lparr>ending := m\<rparr>,
             title = header_fields (separator (settings c)) pre,
             values = map rowf lines @ (if fin = [] then [] else [rowf fin])\<rparr>)"
    if ne: "pre \<noteq> []"
      and tl: "tl' = (if t = CHR 0x0D then [CHR 0x0A] else [])"
      and rs: "rest = tl' @ concat (map (\<lambda>l. l @ t # tl') lines) @ fin"
      and nf: "t \<notin> set fin"
      and ls: "\<forall>l\<in>set lines.
             l \<noteq> [] \<and> t \<notin> set l \<and>
             row_loop (auto_derive_type (settings c)) (separator (settings c)) (istringstream l) [] =
               Some (Returned (rowf l)) \<and>
             length (rowf l) = length (header_fields (separator (settings c)) pre)"
      and lf: "fin \<noteq> [] \<longrightarrow>
             row_loop (auto_derive_type (settings c)) (separator (settings c)) (istringstream fin) [] =
               Some (Returned (rowf fin)) \<and>
             length (rowf fin) = length (header_fields (separator (settings c)) pre)"
  proof -
    let ?body = "concat (map (\<lambda>l. l @ t # tl') lines) @ fin"
    have dt: "(t = CHR 0x0A \<and> tl' = []) \<or> (t = CHR 0x0D \<and> tl' = [CHR 0x0A])"
      using assms(4) tl by auto
    have b1: "buf ?s1 = tl' @ ?body" using rs by simp
    have sk: "skip_lf t ?s1 = src\<lparr>buf := ?body\<rparr>"
      using skip_lf_terminator [OF g1 b1 dt] by simp
    have g2: "good (src\<lparr>buf := ?body\<rparr>)" using assms(2) by (simp add: good_def)
    have b2: "buf (src\<lparr>buf := ?body\<rparr>) = ?body" by simp
    have st: "auto_derive_type (settings ?c2) = auto_derive_type (settings c)"
      "separator (settings ?c2) = separator (settings c)"
      "title ?c2 = header_fields (separator (settings c)) pre"
      by simp_all
    have cv: "convert_all a (fields sp l) [] = Returned x"
      if "row_loop a sp (istringstream l) [] = Some (Returned x)" for a sp l x
      using that unfolding row_loop_istringstream by simp
    have ls': "\<forall>l\<in>set lines.
        l \<noteq> [] \<and> t \<notin> set l \<and>
        convert_all (auto_derive_type (settings ?c2)) (fields (separator (settings ?c2)) l) [] =
          Returned (rowf l) \<and>
        length (rowf l) = length (title ?c2)"
      unfolding st using ls cv by blast
    have lf': "fin \<noteq> [] \<longrightarrow>
        convert_all (auto_derive_type (settings ?c2)) (fields (separator (settings ?c2)) fin) [] =
          Returned (rowf fin) \<and>
        length (rowf fin) = length (title ?c2)"
      unfolding st using lf cv by blast
    have dl: "data_loop t (src\<lparr>buf := ?body\<rparr>) pre ?c2 =
        Some (Returned 0,
              ?c2\<lparr>values := values ?c2 @ map rowf lines @ (if fin = [] then [] else [rowf fin])\<rparr>)"
      using data_loop_lines [OF g2 b2 dt nf ls' lf'] .
    have eq: "?c2\<lparr>values := values ?c2 @ map rowf lines @ (if fin = [] then [] else [rowf fin])\<rparr> =
        \<lparr>settings = (settings c)\<lparr>ending := m\<rparr>,
         title = header_fields (separator (settings c)) pre,
         values = map rowf lines @ (if fin = [] then [] else [rowf fin])\<rparr>"
      by (cases c) simp
    have "parse src c = data_loop t (src\<lparr>buf := ?body\<rparr>) pre ?c2"
      unfolding p d sk using ne by simp
    then show ?thesis unfolding dl eq .
  qed
  show ?thesis using s p d k1 k2 e f by blast
qed



theorem C6_auto_mode_fixed_by_first_terminator_witness:
  "ending (settings (CSV_new (Settings_default\<lparr>ending := AUTO\<rparr>))) = AUTO \<and>
   good (istringstream [CHR ''a'', CHR 0x0D, CHR 0x0A, CHR ''1'', CHR 0x0A, CHR ''x'', CHR 0x0D, CHR 0x0A,
                        CHR ''2'', CHR 0x0D, CHR 0x0A]) \<and>
   scan_header (istringstream [CHR ''a'', CHR 0x0D, CHR 0x0A, CHR ''1'', CHR 0x0A, CHR ''x'', CHR 0x0D,
                        CHR 0x0A, CHR ''2'', CHR 0x0D, CHR 0x0A]) [] AUTO =
     Some (istringstream [CHR 0x0A, CHR ''1'', CHR 0x0A, CHR ''x'', CHR 0x0D, CHR 0x0A,
                          CHR ''2'', CHR 0x0D, CHR 0x0A], ''a'', CRLF) \<and>
   parse (istringstream [CHR ''a'', CHR 0x0D, CHR 0x0A, CHR ''1'', CHR 0x0A, CHR ''x'', CHR 0x0D, CHR 0x0A,
                        CHR ''2'', CHR 0x0D, CHR 0x0A])
         (CSV_new (Settings_default\<lparr>ending := AUTO\<rparr>)) =
     Some (Returned 0, \<lparr>settings = Settings_default\<lparr>ending := CRLF\<rparr>, title = [''a''],
                         values = [[Text [CHR ''1'', CHR 0x0A, CHR ''x'']], [Text ''2'']]\<rparr>)"
proof -
  let ?c = "CSV_new (Settings_default\<lparr>ending := AUTO\<rparr>)"
  let ?l1 = "[CHR ''1'', CHR 0x0A, CHR ''x'']"
  let ?lines = "[?l1, ''2'']"
  let ?rest = "[CHR 0x0A] @ concat (map (\<lambda>l. l @ CHR 0x0D # [CHR 0x0A]) ?lines) @ ([] :: string)"
  let ?src = "istringstream (''a'' @ CHR 0x0D # ?rest)"
  let ?rowf = "\<lambda>l. [Text l]"
  let ?fin = "[] :: string"
  have a: "ending (settings ?c) = AUTO" by (simp add: CSV_new_def)
  have g: "good ?src" by (simp add: good_def istringstream_def)
  have b: "buf ?src = ''a'' @ CHR 0x0D # ?rest" by (simp add: istringstream_def)
  have t: "CHR 0x0D = CHR 0x0D \<or> CHR 0x0D = CHR 0x0A" by simp
  have n: "CHR 0x0D \<notin> set ''a''" "CHR 0x0A \<notin> set ''a''" by simp_all
  have m: "CRLF = (if CHR 0x0D = CHR 0x0D then CRLF else LF)" by simp
  have h1: "''a'' \<noteq> []" by simp
  have h2: "[CHR 0x0A] = (if CHR 0x0D = CHR 0x0D then [CHR 0x0A] else [])" by simp
  have h4: "CHR 0x0D \<notin> set ?fin" by simp
  have r1: "row_loop (auto_derive_type (settings ?c)) (separator (settings ?c)) (istringstream ?l1) [] =
      Some (Returned (?rowf ?l1))" by code_simp
  have r2: "row_loop (auto_derive_type (settings ?c)) (separator (settings ?c)) (istringstream ''2'') [] =
      Some (Returned (?rowf ''2''))" by code_simp
  have hf: "header_fields (separator (settings ?c)) ''a'' = [''a'']" by code_simp
  have h5: "\<forall>l\<in>set ?lines.
      l \<noteq> [] \<and> CHR 0x0D \<notin> set l \<and>
      row_loop (auto_derive_type (settings ?c)) (separator (settings ?c)) (istringstream l) [] =
        Some (Returned (?rowf l)) \<and>
      length (?rowf l) = length (header_fields (separator (settings ?c)) ''a'')"
    using r1 r2 unfolding hf by simp
  have h6: "?fin \<noteq> [] \<longrightarrow>
      row_loop (auto_derive_type (settings ?c)) (separator (settings ?c)) (istringstream ?fin) [] =
        Some (Returned (?rowf ?fin)) \<and>
      length (?rowf ?fin) = length (header_fields (separator (settings ?c)) ''a'')"
    by simp
  note inst = C6_auto_mode_fixed_by_first_terminator [OF a g b t n m,
      where tl' = "[CHR 0x0A]" and lines = ?lines and fin = ?fin and rowf = ?rowf]
  have s: "scan_header ?src [] AUTO = Some (?src\<lparr>buf := ?rest\<rparr>, ''a'', CRLF)"
    by (rule inst [THEN conjunct1])
  have h3: "?rest = [CHR 0x0A] @ concat (map (\<lambda>l. l @ CHR 0x0D # [CHR 0x0A]) ?lines) @ ?fin"
    by (rule refl)
  note lines_part = inst [THEN conjunct2, THEN conjunct2, THEN conjunct2, THEN conjunct2,
      THEN conjunct2, THEN conjunct2]
  have "parse ?src ?c =
      Some (Returned 0,
            \<lparr>settings = (settings ?c)\<lparr>ending := CRLF\<rparr>,
             title = header_fields (separator (settings ?c)) ''a'',
             values = map ?rowf ?lines @ (if ?fin = [] then [] else [?rowf ?fin])\<rparr>)"
    by (rule lines_part [THEN mp]) (intro conjI h1 h2 h3 h4 h5 h6)
  then have p: "parse ?src ?c =
      Some (Returned 0, \<lparr>settings = Settings_default\<lparr>ending := CRLF\<rparr>, title = [''a''],
                          values = [[Text ?l1], [Text ''2'']]\<rparr>)"
    unfolding hf by (simp add: CSV_new_def)
  show ?thesis using a g s p by (simp add: istringstream_def)
qed

text \<open>
  C7: a line that ends in the separator has one more field as a data row than as a
  header. The header loop yields the fields before the trailing separator; the row
  loop hands the same fields and one more, empty, field to the conversion, and with
  auto-inference off stores each of them as \<open>Text\<close>.
\<close>

theorem C7_trailing_separator:
  assumes "line \<noteq> []" and "last line = sep"
  shows "\<exists>hs row.
           header_loop sep (istringstream line) [] = Some hs \<and>
           row_loop False sep (istringstream line) [] = Some (Returned row) \<and>
           row = map Text (hs @ [[]]) \<and>
           length row = length hs + 1 \<and>
           row_loop auto_derive sep (istringstream line) [] =
             Some (convert_all auto_derive (hs @ [[]]) [])"
proof -
  have l: "line = butlast line @ [sep]"
    using assms append_butlast_last_id [of line] by simp
  have h: "header_loop sep (istringstream line) [] = Some (fields sep (butlast line))"
    by (subst l) (simp add: header_loop_istringstream header_fields_snoc_sep)
  have r: "row_loop a sep (istringstream line) [] =
      Some (convert_all a (fields sep (butlast line) @ [[]]) [])" for a
    by (subst l) (simp add: row_loop_istringstream fields_snoc_sep)
  show ?thesis
    using h r [of auto_derive] r [of False] by (simp add: convert_all_False)
qed

theorem C7_trailing_separator_witness:
  "''a,b,'' \<noteq> [] \<and> last ''a,b,'' = CHR '','' \<and>
   header_loop CHR '','' (istringstream ''a,b,'') [] = Some [''a'', ''b''] \<and>
   row_loop False CHR '','' (istringstream ''a,b,'') [] =
     Some (Returned [Text ''a'', Text ''b'', Text []])"
proof -
  have a: "''a,b,'' \<noteq> []" and b: "last ''a,b,'' = CHR '',''" by simp_all
  obtain hs row where
    "header_loop CHR '','' (istringstream ''a,b,'') [] = Some hs"
    "row_loop False CHR '','' (istringstream ''a,b,'') [] = Some (Returned row)"
    "row = map Text (hs @ [[]])"
    using C7_trailing_separator [OF a b] by blast
  moreover have "header_loop CHR '','' (istringstream ''a,b,'') [] = Some [''a'', ''b'']"
    by code_simp
  ultimately show ?thesis by auto
qed

text \<open>
  C8: \<open>addRow\<close> with a sequence whose length is not the number of titles throws
  \<open>InvalidValueCount\<close> and leaves the table, and so its row count, as it was.
\<close>

theorem C8_addRow_mismatch:
  assumes "length l \<noteq> length (title c)"
  shows "addRow l c = (Thrown InvalidValueCount, c) \<and>
         length (values (snd (addRow l c))) = length (values c)"
  using assms by (simp add: addRow_def)

theorem C8_addRow_mismatch_witness:
  "length [Text ''1''] \<noteq> length (title (CSV_new Settings_default\<lparr>title := [''a'', ''b'']\<rparr>)) \<and>
   addRow [Text ''1''] (CSV_new Settings_default\<lparr>title := [''a'', ''b'']\<rparr>) =
     (Thrown InvalidValueCount, CSV_new Settings_default\<lparr>title := [''a'', ''b'']\<rparr>)"
  using C8_addRow_mismatch [of "[Text ''1'']" "CSV_new Settings_default\<lparr>title := [''a'', ''b'']\<rparr>"]
  by (simp add: CSV_new_def)

text \<open>
  C9: the operations keep every stored row as long as the header. \<open>parse\<close> does so
  whatever it returns or throws, and it returns on every stream that is good or at
  its end; \<open>addRow\<close>, both \<open>removeRow\<close>s, \<open>setTitle\<close> and \<open>clear\<close> do so too. A row
  of another length is rejected: \<open>addRow\<close> throws \<open>InvalidValueCount\<close>, and the data
  loop of \<open>parse\<close> throws \<open>InvalidDataline\<close> at the line, in both cases with the table
  as it was.
\<close>

theorem C9_rows_as_long_as_header:
  assumes "row_inv c"
  shows "(parse src c = Some (r, c') \<longrightarrow> row_inv c') \<and>
         (eofbit src \<or> good src \<longrightarrow> (\<exists>y. parse src c = Some y)) \<and>
         row_inv (snd (addRow l c)) \<and>
         row_inv (snd (removeRow i c)) \<and>
         row_inv (snd (removeRow_range b e c)) \<and>
         row_inv (setTitle t c) \<and>
         row_inv (clear c) \<and>
         (length l \<noteq> length (title c) \<longrightarrow> addRow l c = (Thrown InvalidValueCount, c)) \<and>
         (fst (getline s line d) \<noteq> [] \<and>
          row_loop (auto_derive_type (settings c)) (separator (settings c))
            (istringstream (fst (getline s line d))) [] = Some (Returned row) \<and>
          length row \<noteq> length (title c) \<longrightarrow>
          data_loop d s line c = Some (Thrown InvalidDataline, c))"
proof -
  have p: "parse src c = Some (r, c') \<longrightarrow> row_inv c'"
    using assms parse_row_inv by blast
  have q: "eofbit src \<or> good src \<longrightarrow> (\<exists>y. parse src c = Some y)"
    using parse_returns by blast
  have a: "row_inv (snd (addRow l c))"
    using assms by (simp add: addRow_def row_inv_def)
  have r1: "row_inv (snd (removeRow i c))"
    using row_inv_take_drop [OF assms] by (simp add: removeRow_def assms)
  have r2: "row_inv (snd (removeRow_range b e c))"
    using row_inv_take_drop [OF assms] by (simp add: removeRow_range_def assms)
  have t: "row_inv (setTitle t c)" "row_inv (clear c)"
    by (simp_all add: setTitle_def clear_def row_inv_def)
  have x: "length l \<noteq> length (title c) \<longrightarrow> addRow l c = (Thrown InvalidValueCount, c)"
    by (simp add: addRow_def)
  have y: "fst (getline s line d) \<noteq> [] \<and>
      row_loop (auto_derive_type (settings c)) (separator (settings c))
        (istringstream (fst (getline s line d))) [] = Some (Returned row) \<and>
      length row \<noteq> length (title c) \<longrightarrow>
      data_loop d s line c = Some (Thrown InvalidDataline, c)"
    by (subst data_loop.simps) (simp add: getColumnCount_def)
  show ?thesis using p q a r1 r2 t x y by blast
qed

theorem C9_rows_as_long_as_header_witness:
  "row_inv \<lparr>settings = Settings_default\<lparr>ending := AUTO\<rparr>, title = [''a'', ''b''],
            values = [[Text ''1'', Text ''2'']]\<rparr> \<and>
   parse (istringstream [CHR ''x'', CHR '','', CHR ''y'', CHR 0x0A, CHR ''5'', CHR '','', CHR ''6'', CHR 0x0A])
     \<lparr>settings = Settings_default\<lparr>ending := AUTO\<rparr>, title = [''a'', ''b''],
      values = [[Text ''1'', Text ''2'']]\<rparr> =
     Some (Returned 0, \<lparr>settings = Settings_default, title = [''x'', ''y''],
                         values = [[Text ''5'', Text ''6'']]\<rparr>) \<and>
   row_inv \<lparr>settings = Settings_default, title = [''x'', ''y''],
            values = [[Text ''5'', Text ''6'']]\<rparr> \<and>
   addRow [Text ''9'']
     \<lparr>settings = Settings_default\<lparr>ending := AUTO\<rparr>, title = [''a'', ''b''],
      values = [[Text ''1'', Text ''2'']]\<rparr> =
     (Thrown InvalidValueCount,
      \<lparr>settings = Settings_default\<lparr>ending := AUTO\<rparr>, title = [''a'', ''b''],
       values = [[Text ''1'', Text ''2'']]\<rparr>) \<and>
   data_loop CHR 0x0A (istringstream ''1,2,3'') []
     \<lparr>settings = Settings_default\<lparr>ending := AUTO\<rparr>, title = [''a'', ''b''],
      values = [[Text ''1'', Text ''2'']]\<rparr> =
     Some (Thrown InvalidDataline,
           \<lparr>settings = Settings_default\<lparr>ending := AUTO\<rparr>, title = [''a'', ''b''],
            values = [[Text ''1'', Text ''2'']]\<rparr>)"
proof -
  let ?c = "\<lparr>settings = Settings_default\<lparr>ending := AUTO\<rparr>, title = [''a'', ''b''],
             values = [[Text ''1'', Text ''2'']]\<rparr>"
  let ?c' = "\<lparr>settings = Settings_default, title = [''x'', ''y''],
              values = [[Text ''5'', Text ''6'']]\<rparr>"
  let ?src = "istringstream [CHR ''x'', CHR '','', CHR ''y'', CHR 0x0A, CHR ''5'', CHR '','', CHR ''6'', CHR 0x0A]"
  have h: "row_inv ?c" by (simp add: row_inv_def)
  have p: "parse ?src ?c = Some (Returned 0, ?c')" by code_simp
  have g: "fst (getline (istringstream ''1,2,3'') [] CHR 0x0A) \<noteq> []" by code_simp
  have r: "row_loop (auto_derive_type (settings ?c)) (separator (settings ?c))
      (istringstream (fst (getline (istringstream ''1,2,3'') [] CHR 0x0A))) [] =
      Some (Returned [Text ''1'', Text ''2'', Text ''3''])" by code_simp
  have n: "length [Text ''1'', Text ''2'', Text ''3''] \<noteq> length (title ?c)"
    and m: "length [Text ''9''] \<noteq> length (title ?c)" by simp_all
  from C9_rows_as_long_as_header [OF h, where src = ?src and r = "Returned 0" and c' = ?c'
      and l = "[Text ''9'']" and s = "istringstream ''1,2,3''" and line = "[]" and d = "CHR 0x0A"
      and row = "[Text ''1'', Text ''2'', Text ''3'']"]
  show ?thesis using h p g r n m by blast
qed

text \<open>
  C10: a table with at least one title whose mode is still \<open>AUTO\<close> is written
  exactly as it is in the mode \<open>CRLF\<close>. When every cell can be turned into a string
  (\<open>str\<close> gives the string), what is written is the header line and every row,
  each followed by a carriage return and a line feed, and the count returned is the
  length of that text.
\<close>

theorem C10_AUTO_written_as_CRLF:
  assumes "title c \<noteq> []" and "ending (settings c) = AUTO"
  shows "write_CSV c des = write_CSV (c\<lparr>settings := (settings c)\<lparr>ending := CRLF\<rparr>\<rparr>) des \<and>
         ((\<forall>row\<in>set (values c). \<forall>v\<in>set row.
             (if \<not> auto_derive_type (settings c) then any_cast_string
              else render_any (settings c)) v = Some (Returned (str v))) \<longrightarrow>
          write_CSV c des =
            Some (Returned (length (written (separator (settings c)) [CHR 0x0D, CHR 0x0A] (title c)
                                      (map (map str) (values c)))),
                  des @ written (separator (settings c)) [CHR 0x0D, CHR 0x0A] (title c)
                          (map (map str) (values c))))"
proof -
  have t: "[CHR 0x0D, CHR 0x0A] = (if ending (settings c) = LF then [CHR 0x0A] else [CHR 0x0D, CHR 0x0A])"
    using assms(2) by simp
  show ?thesis
    using write_CSV_AUTO [OF assms(2), of des] write_CSV_written [OF assms(1) _ t refl, of str des]
    by blast
qed

theorem C10_AUTO_written_as_CRLF_witness:
  "title \<lparr>settings = Settings_default\<lparr>ending := AUTO\<rparr>, title = [''a'', ''b''],
          values = [[Text ''1'', Text ''2'']]\<rparr> \<noteq> [] \<and>
   ending (settings \<lparr>settings = Settings_default\<lparr>ending := AUTO\<rparr>, title = [''a'', ''b''],
          values = [[Text ''1'', Text ''2'']]\<rparr>) = AUTO \<and>
   write_CSV \<lparr>settings = Settings_default\<lparr>ending := AUTO\<rparr>, title = [''a'', ''b''],
          values = [[Text ''1'', Text ''2'']]\<rparr> [] =
     Some (Returned 10, [CHR ''a'', CHR '','', CHR ''b'', CHR 0x0D, CHR 0x0A,
                         CHR ''1'', CHR '','', CHR ''2'', CHR 0x0D, CHR 0x0A]) \<and>
   write_CSV \<lparr>settings = Settings_default\<lparr>ending := CRLF\<rparr>, title = [''a'', ''b''],
          values = [[Text ''1'', Text ''2'']]\<rparr> [] =
     Some (Returned 10, [CHR ''a'', CHR '','', CHR ''b'', CHR 0x0D, CHR 0x0A,
                         CHR ''1'', CHR '','', CHR ''2'', CHR 0x0D, CHR 0x0A])"
proof -
  let ?c = "\<lparr>settings = Settings_default\<lparr>ending := AUTO\<rparr>, title = [''a'', ''b''],
             values = [[Text ''1'', Text ''2'']]\<rparr>"
  have a: "title ?c \<noteq> []" and b: "ending (settings ?c) = AUTO" by simp_all
  have h: "\<forall>row\<in>set (values ?c). \<forall>v\<in>set row.
      (if \<not> auto_derive_type (settings ?c) then any_cast_string
       else render_any (settings ?c)) v = Some (Returned (cell_text v))"
    by (simp add: Settings_default_def)
  have w: "written (separator (settings ?c)) [CHR 0x0D, CHR 0x0A] (title ?c)
      (map (map cell_text) (values ?c)) =
      [CHR ''a'', CHR '','', CHR ''b'', CHR 0x0D, CHR 0x0A, CHR ''1'', CHR '','', CHR ''2'', CHR 0x0D, CHR 0x0A]"
    by (simp add: written_def Settings_default_def)
  from C10_AUTO_written_as_CRLF [OF a b, of "[]" cell_text] h
  have "write_CSV ?c [] = write_CSV (?c\<lparr>settings := (settings ?c)\<lparr>ending := CRLF\<rparr>\<rparr>) []"
    and "write_CSV ?c [] =
      Some (Returned (length (written (separator (settings ?c)) [CHR 0x0D, CHR 0x0A] (title ?c)
                (map (map cell_text) (values ?c)))),
            [] @ written (separator (settings ?c)) [CHR 0x0D, CHR 0x0A] (title ?c)
                (map (map cell_text) (values ?c)))"
    by blast+
  then show ?thesis unfolding w by (simp add: Settings_default_def)
qed

end
